theory Spec2Isabelle
  imports Complex_Main "HOL-Library.Multiset"
begin

section \<open>Numbers, candles and errors\<close>

text \<open>
  The analytics of \<^verbatim>\<open>binance.js\<close> work on JavaScript numbers. Prices and RSI values
  are modelled as real numbers, timestamps (milliseconds since the epoch, the value of
  \<^verbatim>\<open>Date.getTime()\<close>) as integers, array lengths, indices and periods as naturals.
  \<^verbatim>\<open>null\<close> is \<open>None\<close>. The real-number model leaves out rounding, overflow, \<^verbatim>\<open>NaN\<close>
  and the infinities. In \<^verbatim>\<open>calculateRSI\<close> a \<^verbatim>\<open>NaN\<close> arises for \<^verbatim>\<open>period = 0\<close> (a
  division \<^verbatim>\<open>0 / 0\<close>), for prices that are not finite numbers, and for finite prices so
  large that a difference or a sum of them overflows to an infinity. The section on
  double arithmetic below has these values and is used for the range of the RSI; the
  definitions over the real numbers describe the computation as long as no operation
  overflows, and the statements made with them do not depend on the size of the values.
\<close>

datatype error =
    NeedAtLeastPrices nat
  | NoKlinesData
  | IpBanned
  | BinanceApiError nat
  | NetworkFailure

text \<open>One entry of \<^verbatim>\<open>formatKlinesData\<close>; \<open>openTime\<close> is its field \<^verbatim>\<open>timestamp\<close>.\<close>

record candle =
  openTime :: int
  openPrice :: real
  high :: real
  low :: real
  close :: real
  closeTime :: int

section \<open>RSI with Wilder's smoothing\<close>

definition changes_of :: "real list \<Rightarrow> real list" where
  "changes_of prices = map (\<lambda>i. prices ! i - prices ! (i - 1)) [1..<length prices]"

definition gains_of :: "real list \<Rightarrow> real list" where
  "gains_of changes = map (\<lambda>change. if change > 0 then change else 0) changes"

definition losses_of :: "real list \<Rightarrow> real list" where
  "losses_of changes = map (\<lambda>change. if change < 0 then - change else 0) changes"

text \<open>\<^verbatim>\<open>rs = avgLoss !== 0 ? avgGain / avgLoss : 0; 100 - (100 / (1 + rs))\<close>\<close>

definition rsi_of :: "real \<Rightarrow> real \<Rightarrow> real" where
  "rsi_of avgGain avgLoss =
     (let rs = (if avgLoss \<noteq> 0 then avgGain / avgLoss else 0)
      in 100 - 100 / (1 + rs))"

record rsi_state =
  avgGain :: real
  avgLoss :: real
  rsiValues :: "real option list"

text \<open>The body of the smoothing loop, for price index \<open>i\<close> (change index \<open>i - 1\<close>).\<close>

definition rsi_step :: "nat \<Rightarrow> real list \<Rightarrow> real list \<Rightarrow> nat \<Rightarrow> rsi_state \<Rightarrow> rsi_state" where
  "rsi_step period gains losses i st =
     (let changeIndex = i - 1;
          ag = (avgGain st * (real period - 1) + gains ! changeIndex) / real period;
          al = (avgLoss st * (real period - 1) + losses ! changeIndex) / real period
      in \<lparr>avgGain = ag, avgLoss = al, rsiValues = (rsiValues st)[i := Some (rsi_of ag al)]\<rparr>)"

definition calculateRSI :: "real list \<Rightarrow> nat \<Rightarrow> error + real option list" where
  "calculateRSI prices period =
     (if length prices < period + 1 then Inl (NeedAtLeastPrices (period + 1))
      else
        let changes = changes_of prices;
            gains = gains_of changes;
            losses = losses_of changes;
            ag = sum_list (take period gains) / real period;
            al = sum_list (take period losses) / real period;
            st = \<lparr>avgGain = ag, avgLoss = al,
                  rsiValues = (replicate (length prices) None)[period := Some (rsi_of ag al)]\<rparr>
        in Inr (rsiValues (fold (rsi_step period gains losses) [period + 1..<length prices] st)))"

text \<open>The invariant of the smoothing loop when it is about to treat index \<open>i\<close>.\<close>

definition rsi_inv :: "nat \<Rightarrow> nat \<Rightarrow> nat \<Rightarrow> rsi_state \<Rightarrow> bool" where
  "rsi_inv n period i st \<longleftrightarrow>
     0 \<le> avgGain st \<and> 0 \<le> avgLoss st \<and> length (rsiValues st) = n \<and>
     (\<forall>j<period. rsiValues st ! j = None) \<and>
     (\<forall>j. period \<le> j \<and> j < i \<longrightarrow> (\<exists>v. rsiValues st ! j = Some v \<and> 0 \<le> v \<and> v \<le> 100))"

section \<open>RSI in double arithmetic with overflow\<close>

text \<open>
  A JavaScript number is a finite double, an infinity or \<^verbatim>\<open>NaN\<close>. A finite double is given
  by the real number it stands for. The operations follow IEEE 754 except that a finite
  result is not rounded: the result of an operation on finite numbers is the exact value,
  unless this is so large that IEEE 754 rounds it to an infinity, which it does from the
  magnitude \<open>2^1024 - 2^970\<close> on. Underflow is left out, and so is the sign of a zero: a
  zero divisor counts as \<open>+0\<close>. \<open>MAX_VALUE\<close> is \<^verbatim>\<open>Number.MAX_VALUE\<close>, the largest finite
  double.
\<close>

datatype jsnum = Num real | PosInf | NegInf | NaN

definition MAX_VALUE :: real where
  "MAX_VALUE = (2 ^ 53 - 1) * 2 ^ 971"

definition overflow :: "real \<Rightarrow> jsnum" where
  "overflow x =
     (if x \<ge> 2 ^ 1024 - 2 ^ 970 then PosInf
      else if x \<le> - (2 ^ 1024 - 2 ^ 970) then NegInf
      else Num x)"

definition inf_of :: "bool \<Rightarrow> jsnum" where
  "inf_of positive = (if positive then PosInf else NegInf)"

fun js_neg :: "jsnum \<Rightarrow> jsnum" where
  "js_neg (Num a) = Num (- a)"
| "js_neg PosInf = NegInf"
| "js_neg NegInf = PosInf"
| "js_neg NaN = NaN"

fun js_add :: "jsnum \<Rightarrow> jsnum \<Rightarrow> jsnum" where
  "js_add (Num a) (Num b) = overflow (a + b)"
| "js_add NaN y = NaN"
| "js_add x NaN = NaN"
| "js_add PosInf NegInf = NaN"
| "js_add NegInf PosInf = NaN"
| "js_add PosInf y = PosInf"
| "js_add x PosInf = PosInf"
| "js_add NegInf y = NegInf"
| "js_add x NegInf = NegInf"

definition js_sub :: "jsnum \<Rightarrow> jsnum \<Rightarrow> jsnum" where
  "js_sub x y = js_add x (js_neg y)"

fun js_mul :: "jsnum \<Rightarrow> jsnum \<Rightarrow> jsnum" where
  "js_mul (Num a) (Num b) = overflow (a * b)"
| "js_mul NaN y = NaN"
| "js_mul x NaN = NaN"
| "js_mul PosInf (Num b) = (if b = 0 then NaN else inf_of (b > 0))"
| "js_mul NegInf (Num b) = (if b = 0 then NaN else inf_of (b < 0))"
| "js_mul (Num a) PosInf = (if a = 0 then NaN else inf_of (a > 0))"
| "js_mul (Num a) NegInf = (if a = 0 then NaN else inf_of (a < 0))"
| "js_mul PosInf PosInf = PosInf"
| "js_mul PosInf NegInf = NegInf"
| "js_mul NegInf PosInf = NegInf"
| "js_mul NegInf NegInf = PosInf"

fun js_div :: "jsnum \<Rightarrow> jsnum \<Rightarrow> jsnum" where
  "js_div (Num a) (Num b) =
     (if b = 0 then (if a = 0 then NaN else inf_of (a > 0)) else overflow (a / b))"
| "js_div NaN y = NaN"
| "js_div x NaN = NaN"
| "js_div (Num a) PosInf = Num 0"
| "js_div (Num a) NegInf = Num 0"
| "js_div PosInf (Num b) = inf_of (b \<ge> 0)"
| "js_div NegInf (Num b) = inf_of (b < 0)"
| "js_div PosInf PosInf = NaN"
| "js_div PosInf NegInf = NaN"
| "js_div NegInf PosInf = NaN"
| "js_div NegInf NegInf = NaN"

text \<open>The comparisons \<^verbatim>\<open>x > 0\<close> and \<^verbatim>\<open>x < 0\<close>, which are false for \<^verbatim>\<open>NaN\<close>.\<close>

fun js_gt0 :: "jsnum \<Rightarrow> bool" where
  "js_gt0 (Num a) = (a > 0)"
| "js_gt0 PosInf = True"
| "js_gt0 NegInf = False"
| "js_gt0 NaN = False"

fun js_lt0 :: "jsnum \<Rightarrow> bool" where
  "js_lt0 (Num a) = (a < 0)"
| "js_lt0 PosInf = False"
| "js_lt0 NegInf = True"
| "js_lt0 NaN = False"

text \<open>
  \<^verbatim>\<open>calculateRSI\<close> on JavaScript numbers, statement by statement as in the section
  above; \<^verbatim>\<open>xs.reduce((a, b) => a + b, 0)\<close> is \<open>js_sum\<close>, and \<^verbatim>\<open>avgLoss !== 0\<close> holds for
  \<^verbatim>\<open>NaN\<close> and the infinities.
\<close>

definition changes_js :: "jsnum list \<Rightarrow> jsnum list" where
  "changes_js prices = map (\<lambda>i. js_sub (prices ! i) (prices ! (i - 1))) [1..<length prices]"

definition gains_js :: "jsnum list \<Rightarrow> jsnum list" where
  "gains_js changes = map (\<lambda>change. if js_gt0 change then change else Num 0) changes"

definition losses_js :: "jsnum list \<Rightarrow> jsnum list" where
  "losses_js changes = map (\<lambda>change. if js_lt0 change then js_neg change else Num 0) changes"

definition js_sum :: "jsnum list \<Rightarrow> jsnum" where
  "js_sum xs = foldl js_add (Num 0) xs"

definition rsi_of_js :: "jsnum \<Rightarrow> jsnum \<Rightarrow> jsnum" where
  "rsi_of_js gain loss =
     (let rs = (if loss \<noteq> Num 0 then js_div gain loss else Num 0)
      in js_sub (Num 100) (js_div (Num 100) (js_add (Num 1) rs)))"

record rsi_state_js =
  avgGain_js :: jsnum
  avgLoss_js :: jsnum
  rsiValues_js :: "jsnum option list"

definition rsi_step_js :: "nat \<Rightarrow> jsnum list \<Rightarrow> jsnum list \<Rightarrow> nat \<Rightarrow> rsi_state_js \<Rightarrow> rsi_state_js" where
  "rsi_step_js period gains losses i st =
     (let changeIndex = i - 1;
          ag = js_div (js_add (js_mul (avgGain_js st) (Num (real period - 1))) (gains ! changeIndex))
                 (Num (real period));
          al = js_div (js_add (js_mul (avgLoss_js st) (Num (real period - 1))) (losses ! changeIndex))
                 (Num (real period))
      in \<lparr>avgGain_js = ag, avgLoss_js = al,
          rsiValues_js = (rsiValues_js st)[i := Some (rsi_of_js ag al)]\<rparr>)"

definition calculateRSI_js :: "jsnum list \<Rightarrow> nat \<Rightarrow> error + jsnum option list" where
  "calculateRSI_js prices period =
     (if length prices < period + 1 then Inl (NeedAtLeastPrices (period + 1))
      else
        let changes = changes_js prices;
            gains = gains_js changes;
            losses = losses_js changes;
            ag = js_div (js_sum (take period gains)) (Num (real period));
            al = js_div (js_sum (take period losses)) (Num (real period));
            st = \<lparr>avgGain_js = ag, avgLoss_js = al,
                  rsiValues_js = (replicate (length prices) None)[period := Some (rsi_of_js ag al)]\<rparr>
        in Inr (rsiValues_js (fold (rsi_step_js period gains losses) [period + 1..<length prices] st)))"

text \<open>The invariant of the smoothing loop in double arithmetic when it is about to treat
  index \<open>i\<close>: both averages are finite, between 0 and \<open>b\<close>.\<close>

definition rsi_inv_js :: "nat \<Rightarrow> nat \<Rightarrow> real \<Rightarrow> nat \<Rightarrow> rsi_state_js \<Rightarrow> bool" where
  "rsi_inv_js n period b i st \<longleftrightarrow>
     (\<exists>g l. avgGain_js st = Num g \<and> avgLoss_js st = Num l \<and> 0 \<le> g \<and> g \<le> b \<and> 0 \<le> l \<and> l \<le> b) \<and>
     length (rsiValues_js st) = n \<and>
     (\<forall>j<period. rsiValues_js st ! j = None) \<and>
     (\<forall>j. period \<le> j \<and> j < i \<longrightarrow> (\<exists>v. rsiValues_js st ! j = Some (Num v) \<and> 0 \<le> v \<and> v \<le> 100))"

section \<open>The latest RSI reading of a symbol\<close>

text \<open>
  \<^verbatim>\<open>v || null\<close> on a number or null: the falsy number \<open>0\<close> becomes null.
  \<^verbatim>\<open>a - b\<close> converts a null operand to \<open>0\<close>.
\<close>

definition or_null :: "real option \<Rightarrow> real option" where
  "or_null v = (case v of None \<Rightarrow> None | Some x \<Rightarrow> if x = 0 then None else Some x)"

definition to_number :: "real option \<Rightarrow> real" where
  "to_number v = (case v of None \<Rightarrow> 0 | Some x \<Rightarrow> x)"

text \<open>\<^verbatim>\<open>xs.slice(a, b)\<close> for indices \<open>0 \<le> a\<close> and \<open>0 \<le> b\<close>.\<close>

definition slice :: "nat \<Rightarrow> nat \<Rightarrow> 'a list \<Rightarrow> 'a list" where
  "slice a b xs = take (b - a) (drop a xs)"

text \<open>\<^verbatim>\<open>xs[xs.length - 1]\<close> and \<^verbatim>\<open>xs[xs.length - 2]\<close>; an index out of range reads
  \<^verbatim>\<open>undefined\<close>, which the callers treat like null.\<close>

definition at_last :: "'a option list \<Rightarrow> 'a option" where
  "at_last xs = (if 1 \<le> length xs then xs ! (length xs - 1) else None)"

definition at_previous :: "'a option list \<Rightarrow> 'a option" where
  "at_previous xs = (if 2 \<le> length xs then xs ! (length xs - 2) else None)"

text \<open>The moving average of the RSI: the mean of the non-null values of the window
  \<^verbatim>\<open>rsiValues.slice(i - maPeriod + 1, i + 1)\<close>, after \<open>maPeriod\<close> leading nulls.\<close>

definition non_null :: "real option list \<Rightarrow> real list" where
  "non_null vs = map the (filter (\<lambda>v. v \<noteq> None) vs)"

definition rsiMA_at :: "real option list \<Rightarrow> nat \<Rightarrow> nat \<Rightarrow> real option" where
  "rsiMA_at rsis maPeriod i =
     (let window = non_null (slice (i - maPeriod + 1) (i + 1) rsis);
          sum = sum_list window;
          count = length window
      in if count > 0 then Some (sum / real count) else None)"

definition rsiMA_of :: "real option list \<Rightarrow> nat \<Rightarrow> real option list" where
  "rsiMA_of rsis maPeriod =
     replicate maPeriod None @ map (rsiMA_at rsis maPeriod) [maPeriod..<length rsis]"

record rsi_data =
  symbol :: string
  timestamp :: int
  price :: real
  rsi :: "real option"
  rsi_ma :: "real option"
  previous_timestamp :: "int option"
  previous_price :: "real option"
  previous_rsi :: "real option"
  previous_rsi_ma :: "real option"
  change :: "real option"
  change_ma :: "real option"
  price_change :: "real option"
  data_points :: nat

text \<open>
  The part of \<^verbatim>\<open>fetchRSIFromBinance\<close> after the RSI series and its moving average are
  computed, for a non-empty \<open>formattedData\<close>: it reads the latest and the previous
  candle by position, swaps the two readings when the previous close time is later than
  the latest one, and builds the result object.
\<close>

definition rsi_result ::
  "string \<Rightarrow> candle list \<Rightarrow> real option list \<Rightarrow> real option list \<Rightarrow> rsi_data" where
  "rsi_result tradingPair formattedData rsis rsiMA =
     (let latestRSI = at_last rsis;
          previousRSI = or_null (at_previous rsis);
          latestRSIMA = at_last rsiMA;
          previousRSIMA = or_null (at_previous rsiMA);
          n = length formattedData;
          latestPrice = close (formattedData ! (n - 1));
          latestTimestamp = closeTime (formattedData ! (n - 1));
          previousPrice = (if 2 \<le> n then Some (close (formattedData ! (n - 2))) else None);
          previousTimestamp = (if 2 \<le> n then Some (closeTime (formattedData ! (n - 2))) else None)
      in case previousTimestamp of
           Some prevTime \<Rightarrow>
             if prevTime > latestTimestamp then
               let swappedLatestRSI = (if previousRSI \<noteq> None then previousRSI else latestRSI);
                   swappedLatestRSIMA = (if previousRSIMA \<noteq> None then previousRSIMA else latestRSIMA);
                   swappedPrevRSI = latestRSI;
                   swappedPrevRSIMA = latestRSIMA
               in \<lparr>symbol = tradingPair, timestamp = prevTime, price = to_number previousPrice,
                    rsi = swappedLatestRSI, rsi_ma = swappedLatestRSIMA,
                    previous_timestamp = Some latestTimestamp,
                    previous_price = Some latestPrice,
                    previous_rsi = swappedPrevRSI, previous_rsi_ma = swappedPrevRSIMA,
                    change = (if swappedPrevRSI \<noteq> None \<and> swappedLatestRSI \<noteq> None
                              then Some (to_number swappedLatestRSI - to_number swappedPrevRSI)
                              else None),
                    change_ma = (if swappedPrevRSIMA \<noteq> None \<and> swappedLatestRSIMA \<noteq> None
                                 then Some (to_number swappedLatestRSIMA - to_number swappedPrevRSIMA)
                                 else None),
                    price_change = (if previousPrice \<noteq> None
                                    then Some (to_number previousPrice - latestPrice) else None),
                    data_points = n\<rparr>
             else
               \<lparr>symbol = tradingPair, timestamp = latestTimestamp, price = latestPrice,
                rsi = latestRSI, rsi_ma = latestRSIMA,
                previous_timestamp = previousTimestamp, previous_price = previousPrice,
                previous_rsi = previousRSI, previous_rsi_ma = previousRSIMA,
                change = (if previousRSI \<noteq> None
                          then Some (to_number latestRSI - to_number previousRSI) else None),
                change_ma = (if previousRSIMA \<noteq> None
                             then Some (to_number latestRSIMA - to_number previousRSIMA) else None),
                price_change = (if previousPrice \<noteq> None
                                then Some (latestPrice - to_number previousPrice) else None),
                data_points = n\<rparr>
         | None \<Rightarrow>
               \<lparr>symbol = tradingPair, timestamp = latestTimestamp, price = latestPrice,
                rsi = latestRSI, rsi_ma = latestRSIMA,
                previous_timestamp = previousTimestamp, previous_price = previousPrice,
                previous_rsi = previousRSI, previous_rsi_ma = previousRSIMA,
                change = (if previousRSI \<noteq> None
                          then Some (to_number latestRSI - to_number previousRSI) else None),
                change_ma = (if previousRSIMA \<noteq> None
                             then Some (to_number latestRSIMA - to_number previousRSIMA) else None),
                price_change = (if previousPrice \<noteq> None
                                then Some (latestPrice - to_number previousPrice) else None),
                data_points = n\<rparr>)"

text \<open>
  \<^verbatim>\<open>fetchRSIFromBinance\<close>. Its only input from outside is the outcome of
  \<^verbatim>\<open>getBinanceKlines(symbol, '1h', 168)\<close>, given here as \<open>response\<close>: an error, or the
  candles in the order the exchange sent them (already through \<^verbatim>\<open>formatKlinesData\<close>).
  \<^verbatim>\<open>Array.prototype.sort\<close> is stable, as \<open>sort_key\<close> is. The logging and the staleness
  warning have no effect on the result.
\<close>

definition fetchRSIFromBinance ::
  "(error + candle list) \<Rightarrow> string \<Rightarrow> nat \<Rightarrow> nat \<Rightarrow> error + rsi_data" where
  "fetchRSIFromBinance response tradingPair period maPeriod =
     (case response of
        Inl e \<Rightarrow> Inl e
      | Inr klines \<Rightarrow>
          if klines = [] then Inl NoKlinesData
          else
            let formattedData = sort_key closeTime klines;
                prices = map close formattedData
            in case calculateRSI prices period of
                 Inl e \<Rightarrow> Inl e
               | Inr rsis \<Rightarrow>
                   Inr (rsi_result tradingPair formattedData rsis (rsiMA_of rsis maPeriod)))"

section \<open>Fetching candles with rate-limit handling\<close>

text \<open>
  What the exchange answers to one request of \<^verbatim>\<open>getBinanceKlines\<close>: a successful answer
  (\<^verbatim>\<open>response.ok\<close>) with its candles, an answer with another status code together with
  the number of seconds of its \<^verbatim>\<open>Retry-After\<close> header if there is one, or no answer at all
  (\<^verbatim>\<open>fetch\<close> throws). The exchange is a function from the number of the request to its
  answer.
\<close>

datatype response = Ok "candle list" | Failed nat "nat option" | Unreachable

record klines_run =
  returned :: "error + candle list"
  requests :: nat
  waits :: "nat list"

text \<open>\<^verbatim>\<open>retryAfter ? parseInt(retryAfter) * 1000 : 60000\<close>\<close>

definition waitTime :: "nat option \<Rightarrow> nat" where
  "waitTime retryAfter = (case retryAfter of Some seconds \<Rightarrow> seconds * 1000 | None \<Rightarrow> 60000)"

text \<open>
  \<^verbatim>\<open>getBinanceKlines\<close>, started at request number \<open>n\<close> after the waiting times
  \<open>waited\<close> (milliseconds). On status 429 it waits and calls itself again. The function
  may never return, which is the value \<open>None\<close>.
\<close>

partial_function (option) getBinanceKlines ::
  "(nat \<Rightarrow> response) \<Rightarrow> nat \<Rightarrow> nat list \<Rightarrow> klines_run option" where
  "getBinanceKlines server n waited =
     (case server n of
        Ok klines \<Rightarrow> Some \<lparr>returned = Inr klines, requests = n + 1, waits = waited\<rparr>
      | Failed status retryAfter \<Rightarrow>
          if status = 429 then getBinanceKlines server (n + 1) (waited @ [waitTime retryAfter])
          else if status = 418 then
            Some \<lparr>returned = Inl IpBanned, requests = n + 1, waits = waited\<rparr>
          else Some \<lparr>returned = Inl (BinanceApiError status), requests = n + 1, waits = waited\<rparr>
      | Unreachable \<Rightarrow> Some \<lparr>returned = Inl NetworkFailure, requests = n + 1, waits = waited\<rparr>)"

section \<open>The cache and its cadence check\<close>

text \<open>
  \<^verbatim>\<open>localStorage\<close> holds one entry \<^verbatim>\<open>{data, timestamp, expiry}\<close> per key. All clock
  readings of one call are taken to be the same instant \<open>now\<close>, unless a later reading
  is given separately.
\<close>

record 'a cache_entry =
  ce_data :: 'a
  ce_timestamp :: int
  ce_expiry :: int

type_synonym 'a storage = "string \<rightharpoonup> 'a cache_entry"

definition CACHE_PREFIX :: string where
  "CACHE_PREFIX = ''crypto_signal_cache_''"

definition CacheUtils_get :: "'a storage \<Rightarrow> string \<Rightarrow> int \<Rightarrow> ('a \<times> int) option \<times> 'a storage" where
  "CacheUtils_get store key now =
     (case store (CACHE_PREFIX @ key) of
        None \<Rightarrow> (None, store)
      | Some cached \<Rightarrow>
          if ce_expiry cached \<noteq> 0 \<and> now > ce_timestamp cached + ce_expiry cached
          then (None, store(CACHE_PREFIX @ key := None))
          else (Some (ce_data cached, ce_timestamp cached), store))"

definition CacheUtils_set :: "'a storage \<Rightarrow> string \<Rightarrow> 'a \<Rightarrow> int \<Rightarrow> int \<Rightarrow> 'a storage" where
  "CacheUtils_set store key d expiry now =
     store(CACHE_PREFIX @ key \<mapsto> \<lparr>ce_data = d, ce_timestamp = now, ce_expiry = expiry\<rparr>)"

definition intervalMs :: "string \<Rightarrow> int" where
  "intervalMs interval = (if interval = ''1h'' then 60 * 60 * 1000 else 5 * 60 * 1000)"

definition getLatestExpectedCandleTime :: "int \<Rightarrow> string \<Rightarrow> int" where
  "getLatestExpectedCandleTime now interval = (now div intervalMs interval) * intervalMs interval"

definition hasNewCandleAvailable :: "int \<Rightarrow> int option \<Rightarrow> string \<Rightarrow> bool" where
  "hasNewCandleAvailable now lastCandleTime interval =
     (getLatestExpectedCandleTime now interval > (case lastCandleTime of Some t \<Rightarrow> t | None \<Rightarrow> 0))"

section \<open>RSI readings of several symbols, cached\<close>







section \<open>Oversold history\<close>

text \<open>\<^verbatim>\<open>s.replace(pat, rep)\<close> with a string pattern: the first occurrence is replaced.\<close>

fun replace_first :: "string \<Rightarrow> string \<Rightarrow> string \<Rightarrow> string" where
  "replace_first pat rep [] = (if pat = [] then rep else [])"
| "replace_first pat rep (c # cs) =
     (if take (length pat) (c # cs) = pat then rep @ drop (length pat) (c # cs)
      else c # replace_first pat rep cs)"

text \<open>\<^verbatim>\<open>Number(x.toFixed(2))\<close> for \<open>x \<ge> 0\<close>: the nearest multiple of 0.01, the larger one
  at a tie. The code rounds the double that it has computed, which can differ from the
  exact value by a rounding error and then fall on the other side of a tie.\<close>

definition toFixed2 :: "real \<Rightarrow> real" where
  "toFixed2 x = real_of_int (round (x * 100)) / 100"

record hist_item =
  h_timestamp :: int
  h_price :: real
  h_rsi :: real
  h_symbol :: string

text \<open>
  \<^verbatim>\<open>fetchHistoricalRSI\<close>; \<open>response\<close> is the outcome of its call of
  \<^verbatim>\<open>getBinanceKlines\<close>. \<^verbatim>\<open>!sinceTimestamp\<close> holds for null and for \<open>0\<close>, and
  \<^verbatim>\<open>!isNaN(rsi)\<close> holds for every real number.
\<close>

definition fetchHistoricalRSI ::
  "(error + candle list) \<Rightarrow> string \<Rightarrow> nat \<Rightarrow> nat \<Rightarrow> int option \<Rightarrow> int \<Rightarrow> error + hist_item list" where
  "fetchHistoricalRSI response tradingPair days period sinceTimestamp now =
     (let cutoffTime = now - int days * 24 * 60 * 60 * 1000
      in case response of
           Inl e \<Rightarrow> Inl e
         | Inr klines \<Rightarrow>
             if klines = [] then Inr []
             else
               let formattedData = sort_key closeTime klines;
                   prices = map close formattedData
               in case calculateRSI prices period of
                    Inl e \<Rightarrow> Inl e
                  | Inr rsis \<Rightarrow>
                      Inr (concat (map (\<lambda>i.
                        let candleCloseTime = closeTime (formattedData ! i)
                        in case rsis ! i of
                             None \<Rightarrow> []
                           | Some r \<Rightarrow>
                               if candleCloseTime \<ge> cutoffTime \<and> r \<ge> 0 \<and> r \<le> 100 \<and>
                                  (case sinceTimestamp of
                                     None \<Rightarrow> True
                                   | Some since \<Rightarrow> since = 0 \<or> candleCloseTime > since)
                               then [\<lparr>h_timestamp = candleCloseTime,
                                      h_price = close (formattedData ! i),
                                      h_rsi = toFixed2 r, h_symbol = tradingPair\<rparr>]
                               else [])
                        [period..<length formattedData])))"

record oversold_event =
  ev_symbol :: string
  ev_timestamp :: int
  ev_rsi :: real
  ev_price :: real

definition oversoldEvents :: "string \<Rightarrow> real \<Rightarrow> hist_item list \<Rightarrow> oversold_event list" where
  "oversoldEvents tradingPair rsiThreshold historicalRSI =
     map (\<lambda>item. \<lparr>ev_symbol = replace_first ''/USDT'' '''' tradingPair,
                   ev_timestamp = h_timestamp item, ev_rsi = h_rsi item, ev_price = h_price item\<rparr>)
       (filter (\<lambda>item. h_rsi item \<le> rsiThreshold) historicalRSI)"

text \<open>The merge of the cached collection with the newly found items, as both
  \<^verbatim>\<open>fetchOversoldHistory\<close> and \<^verbatim>\<open>fetchMultipleBreakoutSignals\<close> write it.\<close>

definition mergeCached :: "'a list option \<Rightarrow> bool \<Rightarrow> 'a list \<Rightarrow> 'a list" where
  "mergeCached cachedData forceRefresh allEvents =
     (case cachedData of
        Some cd \<Rightarrow>
          if \<not> forceRefresh then cd @ allEvents
          else if allEvents \<noteq> [] then cd @ allEvents
          else allEvents
      | None \<Rightarrow> allEvents)"

text \<open>The loop that keeps the first item of every key, with the set \<open>seen\<close> of keys.
  The string keys of the source join the symbol and one or two times with underscores;
  the times are printed without underscore, so two such strings are equal exactly when
  their components are, and the key is modelled as a tuple.\<close>

fun removeDuplicates :: "('a \<Rightarrow> 'k) \<Rightarrow> 'k set \<Rightarrow> 'a list \<Rightarrow> 'a list" where
  "removeDuplicates key seen [] = []"
| "removeDuplicates key seen (e # es) =
     (if key e \<in> seen then removeDuplicates key seen es
      else e # removeDuplicates key (insert (key e) seen) es)"

definition event_key :: "oversold_event \<Rightarrow> string \<times> int" where
  "event_key e = (ev_symbol e, ev_timestamp e)"

text \<open>Merge, sort by timestamp with the most recent first (a stable sort), remove
  duplicates.\<close>

definition uniqueEvents_of ::
  "oversold_event list option \<Rightarrow> bool \<Rightarrow> oversold_event list \<Rightarrow> oversold_event list" where
  "uniqueEvents_of cachedData forceRefresh allEvents =
     removeDuplicates event_key {}
       (sort_key (\<lambda>e. - ev_timestamp e) (mergeCached cachedData forceRefresh allEvents))"

text \<open>The cached array as a later call sees it: an empty array counts as no cache
  (\<^verbatim>\<open>cached.data.length > 0\<close>).\<close>

definition as_cachedData :: "'a list option \<Rightarrow> 'a list option" where
  "as_cachedData cached = (case cached of None \<Rightarrow> None | Some d \<Rightarrow> if d \<noteq> [] then Some d else None)"

text \<open>
  \<^verbatim>\<open>fetchOversoldHistory\<close>: the array returned and the cache afterwards. \<open>net s\<close> is the
  outcome of \<^verbatim>\<open>getBinanceKlines\<close> for the symbol \<open>s\<close>, and \<open>cacheKey\<close> is the key
  \<^verbatim>\<open>oversold_<symbols>_<days>_<rsiThreshold>\<close>.
\<close>

definition fetchOversoldHistory ::
  "oversold_event list storage \<Rightarrow> string \<Rightarrow> int \<Rightarrow> (string \<Rightarrow> error + candle list) \<Rightarrow>
   string list \<Rightarrow> nat \<Rightarrow> real \<Rightarrow> bool \<Rightarrow> oversold_event list \<times> oversold_event list storage" where
  "fetchOversoldHistory store cacheKey now net symbols days rsiThreshold forceRefresh =
     (case CacheUtils_get store cacheKey now of (cached, store1) \<Rightarrow>
        let cachedData = as_cachedData (map_option fst cached);
            maxTimestamp = map_option (\<lambda>cd. Max (set (map ev_timestamp cd))) cachedData
        in if cachedData \<noteq> None \<and> \<not> forceRefresh \<and> \<not> hasNewCandleAvailable now maxTimestamp ''1h''
           then (case cachedData of Some cd \<Rightarrow> (cd, store1) | None \<Rightarrow> ([], store1))
           else
             let lastTimestamp = map_option (\<lambda>m. m - 60 * 1000) maxTimestamp;
                 allEvents = concat (map (\<lambda>s.
                     case fetchHistoricalRSI (net s) s days 14 lastTimestamp now of
                       Inl e \<Rightarrow> []
                     | Inr historicalRSI \<Rightarrow> oversoldEvents s rsiThreshold historicalRSI) symbols);
                 uniqueEvents = uniqueEvents_of cachedData forceRefresh allEvents;
                 store2 = CacheUtils_set store1 cacheKey uniqueEvents (60 * 60 * 1000) now
             in case cachedData of
                  Some cd \<Rightarrow> if allEvents \<noteq> [] then (uniqueEvents, store2) else (cd, store2)
                | None \<Rightarrow> (uniqueEvents, store2))"

text \<open>
  The caches that \<^verbatim>\<open>fetchOversoldHistory\<close> can meet under one key and threshold: a cache
  without an entry for the key, every cache that a call leaves behind, and every cache
  that differs from such a one under other keys only. The key ends with the threshold,
  so that calls with the same key have the same threshold. (A write that fails for lack of
  quota leaves the entry as it was or removes it, which gives a cache of this kind again.)
\<close>

inductive oversold_cache :: "string \<Rightarrow> real \<Rightarrow> oversold_event list storage \<Rightarrow> bool"
  for cacheKey :: string and rsiThreshold :: real where
  fresh: "store (CACHE_PREFIX @ cacheKey) = None \<Longrightarrow> oversold_cache cacheKey rsiThreshold store"
| called: "oversold_cache cacheKey rsiThreshold store \<Longrightarrow>
     fetchOversoldHistory store cacheKey now net symbols days rsiThreshold forceRefresh = (events, store') \<Longrightarrow>
     oversold_cache cacheKey rsiThreshold store'"
| elsewhere: "oversold_cache cacheKey rsiThreshold store \<Longrightarrow>
     store' (CACHE_PREFIX @ cacheKey) = store (CACHE_PREFIX @ cacheKey) \<Longrightarrow>
     oversold_cache cacheKey rsiThreshold store'"

text \<open>What claim C8 asks of an array of events.\<close>

definition oversold_ok :: "real \<Rightarrow> oversold_event list \<Rightarrow> bool" where
  "oversold_ok rsiThreshold events \<longleftrightarrow>
     list_all (\<lambda>e. ev_rsi e \<le> rsiThreshold) events \<and>
     distinct (map event_key events) \<and>
     sorted (rev (map ev_timestamp events))"

section \<open>Breakout and re-entry signals\<close>

text \<open>
  \<^verbatim>\<open>detectBreakoutSignals\<close> first picks the session range of each day and the 5-minute
  candles that follow it; this part (calendar arithmetic and requests) is not modelled.
  The model starts from its outcome for one day: \<open>rangeHigh\<close>, \<open>rangeLow\<close> and the array
  \<open>candlesAfterRange\<close>, and covers the scan for breakouts and re-entries, the stop-loss
  and take-profit of each signal, the resolution of open positions in the same scan and
  the look-ahead over later candles.
\<close>

datatype direction = Long | Short

datatype position_result = Pending | Win | Loss

text \<open>The variables \<^verbatim>\<open>firstBreakoutIndex\<close>, \<^verbatim>\<open>firstBreakoutCandle\<close>, ..., which are set
  together and reset to null together.\<close>

record first_breakout =
  firstBreakoutIndex :: nat
  firstBreakoutCandle :: candle
  firstBreakoutTime :: int
  firstBreakoutPrice :: real
  firstBreakoutDirection :: direction

text \<open>The object \<^verbatim>\<open>newSignal\<close>; its fields \<^verbatim>\<open>breakoutCandle\<close> and \<^verbatim>\<open>reentryCandle\<close> are
  never read and are left out.\<close>

record pair =
  breakoutTime :: int
  breakoutPrice :: real
  breakoutDirection :: direction
  reentryTime :: int
  reentryPrice :: real
  entryPrice :: real
  stopLoss :: real
  takeProfit :: real
  result :: position_result

text \<open>A signal as returned: the pair with the symbol and the session range.\<close>

record signal = pair +
  sg_symbol :: string
  sg_rangeDate :: string
  sg_rangeHigh :: real
  sg_rangeLow :: real
  sg_rangeCloseTime :: int

text \<open>Where the re-entry at index \<open>i\<close> comes from.\<close>

definition reentryDirection_of ::
  "real \<Rightarrow> real \<Rightarrow> candle list \<Rightarrow> nat \<Rightarrow> first_breakout \<Rightarrow> direction" where
  "reentryDirection_of rangeHigh rangeLow candlesAfterRange i fb =
     (let candle = candlesAfterRange ! i
      in if low candle < rangeLow then Long
         else if high candle > rangeHigh then Short
         else
           let fromPrevious =
                 (if i > 0 then
                    let prevCandle = candlesAfterRange ! (i - 1)
                    in if close prevCandle < rangeLow \<or> low prevCandle < rangeLow then Some Long
                       else if close prevCandle > rangeHigh \<or> high prevCandle > rangeHigh
                       then Some Short
                       else None
                  else None)
           in case fromPrevious of
                Some d \<Rightarrow> d
              | None \<Rightarrow>
                  if firstBreakoutPrice fb > rangeHigh then Short
                  else if firstBreakoutPrice fb < rangeLow then Long
                  else firstBreakoutDirection fb)"

definition lowestPrice_of :: "candle list \<Rightarrow> real" where
  "lowestPrice_of candlesDuringBreakout =
     fold (\<lambda>breakoutCandle lowestPrice.
             if low breakoutCandle < lowestPrice then low breakoutCandle else lowestPrice)
       candlesDuringBreakout (low (hd candlesDuringBreakout))"

definition highestPrice_of :: "candle list \<Rightarrow> real" where
  "highestPrice_of candlesDuringBreakout =
     fold (\<lambda>breakoutCandle highestPrice.
             if high breakoutCandle > highestPrice then high breakoutCandle else highestPrice)
       candlesDuringBreakout (high (hd candlesDuringBreakout))"

text \<open>The signal created at the re-entry candle of index \<open>i\<close> for the waiting breakout.\<close>

definition newSignal :: "real \<Rightarrow> real \<Rightarrow> candle list \<Rightarrow> nat \<Rightarrow> first_breakout \<Rightarrow> pair" where
  "newSignal rangeHigh rangeLow candlesAfterRange i fb =
     (let candle = candlesAfterRange ! i;
          currentEntryPrice = close candle;
          currentDirection = reentryDirection_of rangeHigh rangeLow candlesAfterRange i fb;
          candlesDuringBreakout = slice (firstBreakoutIndex fb) (i + 1) candlesAfterRange;
          maxAllowedRisk = currentEntryPrice * 0.01;
          (currentRisk, currentStopLoss) =
            (if currentDirection = Long then
               let lowestPrice = lowestPrice_of candlesDuringBreakout;
                   calculatedRisk = currentEntryPrice - lowestPrice
               in if calculatedRisk > maxAllowedRisk
                  then (maxAllowedRisk, currentEntryPrice - maxAllowedRisk)
                  else (calculatedRisk, lowestPrice)
             else
               let highestPrice = highestPrice_of candlesDuringBreakout;
                   calculatedRisk = highestPrice - currentEntryPrice
               in if calculatedRisk > maxAllowedRisk
                  then (maxAllowedRisk, currentEntryPrice + maxAllowedRisk)
                  else (calculatedRisk, highestPrice));
          currentTakeProfit =
            (if currentDirection = Long then currentEntryPrice + currentRisk * 2
             else currentEntryPrice - currentRisk * 2)
      in \<lparr>breakoutTime = firstBreakoutTime fb, breakoutPrice = firstBreakoutPrice fb,
          breakoutDirection = currentDirection, reentryTime = closeTime candle,
          reentryPrice = close candle, entryPrice = currentEntryPrice,
          stopLoss = currentStopLoss, takeProfit = currentTakeProfit, result = Pending\<rparr>)"

text \<open>The stop-loss and the take-profit condition of a position on one candle.\<close>

definition stopLossHit :: "direction \<Rightarrow> real \<Rightarrow> candle \<Rightarrow> bool" where
  "stopLossHit d stop candle \<longleftrightarrow>
     (d = Long \<and> low candle \<le> stop) \<or> (d = Short \<and> high candle \<ge> stop)"

definition takeProfitHit :: "direction \<Rightarrow> real \<Rightarrow> candle \<Rightarrow> bool" where
  "takeProfitHit d target candle \<longleftrightarrow>
     (d = Long \<and> high candle \<ge> target) \<or> (d = Short \<and> low candle \<le> target)"

text \<open>The check of an open position against a candle of the same scan: the signal
  afterwards and the flag \<^verbatim>\<open>positionClosed\<close>.\<close>

definition closePosition :: "candle \<Rightarrow> pair \<Rightarrow> pair \<times> bool" where
  "closePosition candle lastSignal =
     (if stopLossHit (breakoutDirection lastSignal) (stopLoss lastSignal) candle
      then (lastSignal\<lparr>result := Loss\<rparr>, True)
      else if takeProfitHit (breakoutDirection lastSignal) (takeProfit lastSignal) candle
      then (lastSignal\<lparr>result := Win\<rparr>, True)
      else (lastSignal, False))"

record scan_state =
  validBreakoutReentryPairs :: "pair list"
  firstBreakout :: "first_breakout option"
  hasOpenPosition :: bool

text \<open>The first part of the loop body: an open position is checked against the candle.
  The flag returned says that the body ends here (\<^verbatim>\<open>continue\<close>).\<close>

definition position_phase :: "candle \<Rightarrow> scan_state \<Rightarrow> scan_state \<times> bool" where
  "position_phase candle st =
     (if hasOpenPosition st then
        (if validBreakoutReentryPairs st \<noteq> [] \<and>
            result (last (validBreakoutReentryPairs st)) = Pending
         then
           (case closePosition candle (last (validBreakoutReentryPairs st)) of
              (lastSignal, positionClosed) \<Rightarrow>
                if positionClosed
                then (st\<lparr>validBreakoutReentryPairs :=
                            butlast (validBreakoutReentryPairs st) @ [lastSignal],
                          hasOpenPosition := False\<rparr>, False)
                else (st, True))
         else (st\<lparr>hasOpenPosition := False\<rparr>, False))
      else (st, False))"

text \<open>The rest of the loop body: the first breakout is recorded, later breakouts are
  ignored, and a close back inside the range creates a signal and opens a position.\<close>

definition breakout_phase :: "real \<Rightarrow> real \<Rightarrow> candle list \<Rightarrow> nat \<Rightarrow> scan_state \<Rightarrow> scan_state" where
  "breakout_phase rangeHigh rangeLow candlesAfterRange i st =
     (let candle = candlesAfterRange ! i;
          isBreakoutAbove = close candle > rangeHigh;
          isBreakoutBelow = close candle < rangeLow
      in case firstBreakout st of
           None \<Rightarrow>
             if isBreakoutAbove \<or> isBreakoutBelow
             then st\<lparr>firstBreakout := Some
                      \<lparr>firstBreakoutIndex = i, firstBreakoutCandle = candle,
                       firstBreakoutTime = closeTime candle, firstBreakoutPrice = close candle,
                       firstBreakoutDirection = (if isBreakoutAbove then Short else Long)\<rparr>\<rparr>
             else st
         | Some fb \<Rightarrow>
             if isBreakoutAbove \<or> isBreakoutBelow then st
             else if close candle \<le> rangeHigh \<and> close candle \<ge> rangeLow
             then st\<lparr>validBreakoutReentryPairs :=
                        validBreakoutReentryPairs st @
                          [newSignal rangeHigh rangeLow candlesAfterRange i fb],
                      hasOpenPosition := True,
                      firstBreakout := None\<rparr>
             else st)"

definition scan_step :: "real \<Rightarrow> real \<Rightarrow> candle list \<Rightarrow> nat \<Rightarrow> scan_state \<Rightarrow> scan_state" where
  "scan_step rangeHigh rangeLow candlesAfterRange i st =
     (case position_phase (candlesAfterRange ! i) st of
        (st1, skip) \<Rightarrow>
          if skip then st1 else breakout_phase rangeHigh rangeLow candlesAfterRange i st1)"

definition scan_candles :: "real \<Rightarrow> real \<Rightarrow> candle list \<Rightarrow> scan_state" where
  "scan_candles rangeHigh rangeLow candlesAfterRange =
     fold (scan_step rangeHigh rangeLow candlesAfterRange) [0..<length candlesAfterRange]
       \<lparr>validBreakoutReentryPairs = [], firstBreakout = None, hasOpenPosition = False\<rparr>"

text \<open>One day of the outer loop: its session range and the candles to scan.\<close>

record day_scan =
  dateKey :: string
  dayHigh :: real
  dayLow :: real
  dayCloseTime :: int
  candlesAfterRange :: "candle list"

definition day_signals :: "string \<Rightarrow> day_scan \<Rightarrow> signal list" where
  "day_signals tradingPair d =
     map (\<lambda>p. pair.extend p
                 (signal.fields (replace_first ''/USDT'' '''' tradingPair) (dateKey d)
                    (dayHigh d) (dayLow d) (dayCloseTime d)))
       (sort_key breakoutTime
          (validBreakoutReentryPairs (scan_candles (dayHigh d) (dayLow d) (candlesAfterRange d))))"

text \<open>The look-ahead for a pending signal: the candles after the re-entry candle are
  checked in order until the stop-loss or the take-profit is hit.\<close>

fun checkCandles :: "direction \<Rightarrow> real \<Rightarrow> real \<Rightarrow> candle list \<Rightarrow> position_result" where
  "checkCandles d stop target [] = Pending"
| "checkCandles d stop target (checkCandle # candlesAfterReentry) =
     (if stopLossHit d stop checkCandle then Loss
      else if takeProfitHit d target checkCandle then Win
      else checkCandles d stop target candlesAfterReentry)"

text \<open>The index of the first candle that closes within a minute of the re-entry.\<close>

fun reentryIndex_from :: "nat \<Rightarrow> int \<Rightarrow> candle list \<Rightarrow> nat option" where
  "reentryIndex_from j t [] = None"
| "reentryIndex_from j t (c # cs) =
     (if \<bar>closeTime c - t\<bar> < 60000 then Some j else reentryIndex_from (j + 1) t cs)"

definition resolvePending :: "candle list \<Rightarrow> 'a signal_scheme \<Rightarrow> 'a signal_scheme" where
  "resolvePending additionalCandles pendingSignal =
     (if additionalCandles = [] then pendingSignal
      else case reentryIndex_from 0 (reentryTime pendingSignal) additionalCandles of
             None \<Rightarrow> pendingSignal
           | Some reentryIndex \<Rightarrow>
               pendingSignal\<lparr>result :=
                 checkCandles (breakoutDirection pendingSignal) (stopLoss pendingSignal)
                   (takeProfit pendingSignal) (drop (reentryIndex + 1) additionalCandles)\<rparr>)"

text \<open>
  The signals of \<^verbatim>\<open>detectBreakoutSignals\<close> for the days \<open>days\<close>, in the order of the
  session ranges; \<open>additional t\<close> is the answer of \<^verbatim>\<open>fetch5MinKlines(symbol, 2000, t)\<close>.
\<close>

definition detectBreakoutSignals ::
  "string \<Rightarrow> day_scan list \<Rightarrow> (int \<Rightarrow> candle list) \<Rightarrow> signal list" where
  "detectBreakoutSignals tradingPair days additional =
     map (\<lambda>s. if result s = Pending then resolvePending (additional (reentryTime s)) s else s)
       (concat (map (day_signals tradingPair) days))"

text \<open>The merge of cached and new signals in \<^verbatim>\<open>fetchMultipleBreakoutSignals\<close>: sorted by
  re-entry time with the most recent first, duplicates identified by symbol, re-entry
  time and breakout time.\<close>

definition signal_key :: "signal \<Rightarrow> string \<times> int \<times> int" where
  "signal_key s = (sg_symbol s, reentryTime s, breakoutTime s)"

definition uniqueSignals_of :: "signal list option \<Rightarrow> bool \<Rightarrow> signal list \<Rightarrow> signal list" where
  "uniqueSignals_of cachedData forceRefresh allSignals =
     removeDuplicates signal_key {}
       (sort_key (\<lambda>s. - reentryTime s) (mergeCached cachedData forceRefresh allSignals))"

section \<open>Invariants used in the proofs\<close>

text \<open>The invariant of the cache entry of \<^verbatim>\<open>fetchOversoldHistory\<close>.\<close>

definition slot_ok :: "string \<Rightarrow> real \<Rightarrow> oversold_event list storage \<Rightarrow> bool" where
  "slot_ok cacheKey rsiThreshold store \<longleftrightarrow>
     (case store (CACHE_PREFIX @ cacheKey) of
        None \<Rightarrow> True
      | Some cached \<Rightarrow> oversold_ok rsiThreshold (ce_data cached))"

text \<open>A breakout that waits for its re-entry when the scan is at index \<open>k\<close>, and a pair
  that was created before index \<open>k\<close>; the invariant of the scan.\<close>

definition waiting_ok :: "real \<Rightarrow> real \<Rightarrow> candle list \<Rightarrow> nat \<Rightarrow> first_breakout \<Rightarrow> bool" where
  "waiting_ok rangeHigh rangeLow cs k fb \<longleftrightarrow>
     firstBreakoutIndex fb < k \<and>
     firstBreakoutTime fb = closeTime (cs ! firstBreakoutIndex fb) \<and>
     firstBreakoutPrice fb = close (cs ! firstBreakoutIndex fb) \<and>
     (firstBreakoutPrice fb > rangeHigh \<or> firstBreakoutPrice fb < rangeLow)"

definition made_at :: "real \<Rightarrow> real \<Rightarrow> candle list \<Rightarrow> nat \<Rightarrow> pair \<Rightarrow> bool" where
  "made_at rangeHigh rangeLow cs k p \<longleftrightarrow>
     (\<exists>fb i. i < k \<and> waiting_ok rangeHigh rangeLow cs i fb \<and>
        p\<lparr>result := Pending\<rparr> = newSignal rangeHigh rangeLow cs i fb)"

definition scan_inv :: "real \<Rightarrow> real \<Rightarrow> candle list \<Rightarrow> nat \<Rightarrow> scan_state \<Rightarrow> bool" where
  "scan_inv rangeHigh rangeLow cs k st \<longleftrightarrow>
     list_all (made_at rangeHigh rangeLow cs k) (validBreakoutReentryPairs st) \<and>
     (case firstBreakout st of None \<Rightarrow> True | Some fb \<Rightarrow> waiting_ok rangeHigh rangeLow cs k fb)"

text \<open>Every signal returned stems from a pair of some day's scan, with the same levels.\<close>

definition same_levels :: "'a pair_scheme \<Rightarrow> 'b pair_scheme \<Rightarrow> bool" where
  "same_levels s p \<longleftrightarrow>
     breakoutTime s = breakoutTime p \<and> breakoutPrice s = breakoutPrice p \<and>
     breakoutDirection s = breakoutDirection p \<and> reentryTime s = reentryTime p \<and>
     reentryPrice s = reentryPrice p \<and> entryPrice s = entryPrice p \<and>
     stopLoss s = stopLoss p \<and> takeProfit s = takeProfit p"

section \<open>Example inputs\<close>


text \<open>A candle whose four prices coincide, closing at \<open>t\<close>; used in examples.\<close>

definition flat_candle :: "int \<Rightarrow> real \<Rightarrow> candle" where
  "flat_candle t c =
     \<lparr>openTime = t - 3599999, openPrice = c, high = c, low = c, close = c, closeTime = t\<rparr>"

text \<open>An exchange that answers with sixteen hourly candles of falling prices, the newest
  first; used in examples.\<close>

definition net_falling :: "string \<Rightarrow> error + candle list" where
  "net_falling s = Inr (map (\<lambda>i. flat_candle (int i * 3600000) (17 - real i)) (rev [1..<17]))"

text \<open>A day with a breakout above the range, a re-entry from above and a candle that
  reaches both the stop-loss and the take-profit; used in examples.\<close>

definition example_candles :: "candle list" where
  "example_candles =
     [\<lparr>openTime = 1, openPrice = 100.5, high = 103, low = 99, close = 102, closeTime = 300000\<rparr>,
      \<lparr>openTime = 300001, openPrice = 102, high = 102.5, low = 96.5, close = 98, closeTime = 600000\<rparr>,
      \<lparr>openTime = 600001, openPrice = 98, high = 99, low = 96, close = 97, closeTime = 900000\<rparr>]"

definition example_day :: day_scan where
  "example_day = \<lparr>dateKey = ''2025-11-01'', dayHigh = 100, dayLow = 95, dayCloseTime = 0,
     candlesAfterRange = example_candles\<rparr>"

definition no_more_candles :: "int \<Rightarrow> candle list" where
  "no_more_candles t = []"

definition example_signal :: signal where
  "example_signal =
     \<lparr>breakoutTime = 300000, breakoutPrice = 102, breakoutDirection = Short, reentryTime = 600000,
      reentryPrice = 98, entryPrice = 98, stopLoss = 98.98, takeProfit = 96.04, result = Loss,
      sg_symbol = ''BTC'', sg_rangeDate = ''2025-11-01'', sg_rangeHigh = 100, sg_rangeLow = 95,
      sg_rangeCloseTime = 0\<rparr>"

definition example_open :: scan_state where
  "example_open =
     \<lparr>validBreakoutReentryPairs =
        [\<lparr>breakoutTime = 300000, breakoutPrice = 102, breakoutDirection = Short,
          reentryTime = 600000, reentryPrice = 98, entryPrice = 98, stopLoss = 98.98,
          takeProfit = 96.04, result = Pending\<rparr>],
      firstBreakout = None, hasOpenPosition = True\<rparr>"

text \<open>A day whose candles end with the re-entry, so that its signal is still pending
  after the scan, and later candles as \<^verbatim>\<open>fetch5MinKlines\<close> returns them from the re-entry
  time on: the re-entry candle and a candle that reaches both levels; used in examples.\<close>

definition example_pending_day :: day_scan where
  "example_pending_day = \<lparr>dateKey = ''2025-11-01'', dayHigh = 100, dayLow = 95, dayCloseTime = 0,
     candlesAfterRange = take 2 example_candles\<rparr>"

definition example_later :: "int \<Rightarrow> candle list" where
  "example_later t = drop 1 example_candles"

section \<open>Properties of the RSI series\<close>

lemma rsi_of_bounds:
  assumes "0 \<le> g" "0 \<le> l"
  shows "0 \<le> rsi_of g l \<and> rsi_of g l \<le> 100"
proof -
  define rs where "rs = (if l \<noteq> 0 then g / l else 0)"
  have rs: "0 \<le> rs" using assms by (simp add: rs_def)
  then have "100 / (1 + rs) \<le> 100" by (simp add: divide_le_eq)
  moreover have "0 \<le> 100 / (1 + rs)" using rs by simp
  ultimately show ?thesis by (simp add: rsi_of_def rs_def Let_def)
qed

lemma gains_of_nonneg: "g \<in> set (gains_of cs) \<Longrightarrow> 0 \<le> g"
  by (auto simp: gains_of_def)

lemma losses_of_nonneg: "l \<in> set (losses_of cs) \<Longrightarrow> 0 \<le> l"
  by (auto simp: losses_of_def)

lemma length_gains_of [simp]: "length (gains_of (changes_of ps)) = length ps - 1"
  by (simp add: gains_of_def changes_of_def)

lemma length_losses_of [simp]: "length (losses_of (changes_of ps)) = length ps - 1"
  by (simp add: losses_of_def changes_of_def)

lemma wilder_nonneg:
  assumes "0 \<le> a" "0 \<le> x" "0 < p"
  shows "0 \<le> (a * (real p - 1) + x) / real p"
proof -
  have "0 \<le> real p - 1" using assms(3) by simp
  then have "0 \<le> a * (real p - 1)" using assms(1) by simp
  then show ?thesis using assms(2) by simp
qed

lemma rsi_step_inv:
  assumes inv: "rsi_inv n period i st"
    and p: "0 < period" and i: "period < i" "i < n"
    and g: "0 \<le> gains ! (i - 1)" and l: "0 \<le> losses ! (i - 1)"
  shows "rsi_inv n period (Suc i) (rsi_step period gains losses i st)"
proof -
  define ag where "ag = (avgGain st * (real period - 1) + gains ! (i - 1)) / real period"
  define al where "al = (avgLoss st * (real period - 1) + losses ! (i - 1)) / real period"
  have st': "rsi_step period gains losses i st =
      \<lparr>avgGain = ag, avgLoss = al, rsiValues = (rsiValues st)[i := Some (rsi_of ag al)]\<rparr>"
    by (simp add: rsi_step_def ag_def al_def Let_def)
  have ag: "0 \<le> ag" unfolding ag_def using inv g p by (intro wilder_nonneg) (simp_all add: rsi_inv_def)
  have al: "0 \<le> al" unfolding al_def using inv l p by (intro wilder_nonneg) (simp_all add: rsi_inv_def)
  have len: "length (rsiValues st) = n" using inv by (simp add: rsi_inv_def)
  have b: "0 \<le> rsi_of ag al \<and> rsi_of ag al \<le> 100" using ag al by (rule rsi_of_bounds)
  have lo: "\<forall>j<period. ((rsiValues st)[i := Some (rsi_of ag al)]) ! j = None"
    using inv i by (simp add: rsi_inv_def)
  have hi: "\<forall>j. period \<le> j \<and> j < Suc i \<longrightarrow>
      (\<exists>v. ((rsiValues st)[i := Some (rsi_of ag al)]) ! j = Some v \<and> 0 \<le> v \<and> v \<le> 100)"
  proof (intro allI impI)
    fix j assume j: "period \<le> j \<and> j < Suc i"
    show "\<exists>v. ((rsiValues st)[i := Some (rsi_of ag al)]) ! j = Some v \<and> 0 \<le> v \<and> v \<le> 100"
    proof (cases "j = i")
      case True
      then show ?thesis using b len i by simp
    next
      case False
      then have "j < i" using j by simp
      then show ?thesis using inv j False by (simp add: rsi_inv_def)
    qed
  qed
  show ?thesis unfolding st' rsi_inv_def using ag al len lo hi by simp
qed

lemma rsi_fold_inv:
  assumes p: "0 < period" and a: "period < a" "a \<le> b" "b \<le> n"
    and g: "\<forall>k<n - 1. 0 \<le> gains ! k" and l: "\<forall>k<n - 1. 0 \<le> losses ! k"
    and inv: "rsi_inv n period a st"
  shows "rsi_inv n period b (fold (rsi_step period gains losses) [a..<b] st)"
  using a(2,3)
proof (induction b)
  case 0
  then show ?case using inv by simp
next
  case (Suc b)
  show ?case
  proof (cases "a \<le> b")
    case True
    then have ih: "rsi_inv n period b (fold (rsi_step period gains losses) [a..<b] st)"
      using Suc by simp
    have "b - 1 < n - 1" using Suc.prems a(1) True by simp
    then have "0 \<le> gains ! (b - 1)" "0 \<le> losses ! (b - 1)" using g l by simp_all
    then have "rsi_inv n period (Suc b)
        (rsi_step period gains losses b (fold (rsi_step period gains losses) [a..<b] st))"
      using ih p a(1) True Suc.prems by (intro rsi_step_inv) simp_all
    then show ?thesis using True by simp
  next
    case False
    then have "a = Suc b" using Suc.prems by simp
    then show ?thesis using inv by simp
  qed
qed

lemma sum_take_nonneg: "(\<And>x. x \<in> set xs \<Longrightarrow> (0::real) \<le> x) \<Longrightarrow> 0 \<le> sum_list (take k xs)"
  by (rule sum_list_nonneg) (auto dest: in_set_takeD)

text \<open>
  In exact arithmetic: a price array shorter than \<open>period + 1\<close> makes \<^verbatim>\<open>calculateRSI\<close>
  throw; for a period of at least one and at least \<open>period + 1\<close> prices the result is as
  long as the input, its first \<open>period\<close> entries are null and its entries from index
  \<open>period\<close> on are numbers between 0 and 100.
\<close>

lemma calculateRSI_exact_shape:
  "(length prices < period + 1 \<longrightarrow>
      calculateRSI prices period = Inl (NeedAtLeastPrices (period + 1))) \<and>
   (1 \<le> period \<and> period + 1 \<le> length prices \<longrightarrow>
      (\<exists>rsis. calculateRSI prices period = Inr rsis \<and> length rsis = length prices \<and>
         (\<forall>i<period. rsis ! i = None) \<and>
         (\<forall>i. period \<le> i \<and> i < length prices \<longrightarrow>
            (\<exists>v. rsis ! i = Some v \<and> 0 \<le> v \<and> v \<le> 100))))"
proof (intro conjI impI)
  assume "length prices < period + 1"
  then show "calculateRSI prices period = Inl (NeedAtLeastPrices (period + 1))"
    by (simp add: calculateRSI_def)
next
  assume h: "1 \<le> period \<and> period + 1 \<le> length prices"
  define n where "n = length prices"
  define gains where "gains = gains_of (changes_of prices)"
  define losses where "losses = losses_of (changes_of prices)"
  define ag where "ag = sum_list (take period gains) / real period"
  define al where "al = sum_list (take period losses) / real period"
  define st where "st = \<lparr>avgGain = ag, avgLoss = al,
        rsiValues = (replicate n None)[period := Some (rsi_of ag al)]\<rparr>"
  define fin where "fin = fold (rsi_step period gains losses) [period + 1..<n] st"
  have res: "calculateRSI prices period = Inr (rsiValues fin)"
    using h by (simp add: calculateRSI_def Let_def fin_def st_def ag_def al_def gains_def losses_def n_def)
  have g: "\<forall>k<n - 1. 0 \<le> gains ! k"
    by (auto simp: gains_def n_def intro!: gains_of_nonneg nth_mem)
  have l: "\<forall>k<n - 1. 0 \<le> losses ! k"
    by (auto simp: losses_def n_def intro!: losses_of_nonneg nth_mem)
  have "0 \<le> sum_list (take period gains)" unfolding gains_def
    by (rule sum_take_nonneg) (rule gains_of_nonneg)
  then have ag: "0 \<le> ag" by (simp add: ag_def)
  have "0 \<le> sum_list (take period losses)" unfolding losses_def
    by (rule sum_take_nonneg) (rule losses_of_nonneg)
  then have al: "0 \<le> al" by (simp add: al_def)
  have b: "0 \<le> rsi_of ag al \<and> rsi_of ag al \<le> 100" using ag al by (rule rsi_of_bounds)
  have pn: "period < n" using h by (simp add: n_def)
  have inv0: "rsi_inv n period (period + 1) st"
    unfolding rsi_inv_def st_def using ag al b pn
    by (auto simp: nth_list_update less_Suc_eq_le)
  have "rsi_inv n period n fin" unfolding fin_def
    using h pn g l inv0 by (intro rsi_fold_inv) simp_all
  then show "\<exists>rsis. calculateRSI prices period = Inr rsis \<and> length rsis = length prices \<and>
         (\<forall>i<period. rsis ! i = None) \<and>
         (\<forall>i. period \<le> i \<and> i < length prices \<longrightarrow>
            (\<exists>v. rsis ! i = Some v \<and> 0 \<le> v \<and> v \<le> 100))"
    unfolding res rsi_inv_def n_def by simp
qed

section \<open>Properties of the RSI series in double arithmetic\<close>

lemma MAX_VALUE_less: "MAX_VALUE < 2 ^ 1024 - 2 ^ 970"
  by (simp add: MAX_VALUE_def)

lemma MAX_VALUE_ge: "100 \<le> MAX_VALUE"
  by (simp add: MAX_VALUE_def)

lemma overflow_Num: "\<bar>x\<bar> \<le> MAX_VALUE \<Longrightarrow> overflow x = Num x"
  using MAX_VALUE_less unfolding overflow_def by (auto simp: abs_le_iff)

lemma overflow_nonneg: "0 \<le> x \<Longrightarrow> overflow x = PosInf \<or> overflow x = Num x"
  unfolding overflow_def by simp

lemma rsi_of_js_bounds:
  assumes "0 \<le> g" "0 \<le> l"
  shows "\<exists>v. rsi_of_js (Num g) (Num l) = Num v \<and> 0 \<le> v \<and> v \<le> 100"
proof -
  have one: "js_add (Num 1) (Num 0) = Num 1"
    using overflow_Num [of 1] MAX_VALUE_ge by simp
  have hundred: "js_sub (Num 100) (Num 0) = Num 100"
    using overflow_Num [of 100] MAX_VALUE_ge by (simp add: js_sub_def)
  have inf: "js_sub (Num 100) (js_div (Num 100) PosInf) = Num 100"
    using hundred by simp
  have fin: "\<exists>v. js_sub (Num 100) (js_div (Num 100) (js_add (Num 1) (Num q))) = Num v \<and> 0 \<le> v \<and> v \<le> 100"
    if q: "0 \<le> q" for q
  proof -
    from overflow_nonneg [of "1 + q"] q
    consider "js_add (Num 1) (Num q) = PosInf" | "js_add (Num 1) (Num q) = Num (1 + q)"
      by auto
    then show ?thesis
    proof cases
      case 1
      then show ?thesis using inf by simp
    next
      case 2
      have r: "0 \<le> 100 / (1 + q)" "100 / (1 + q) \<le> 100" using q by (simp_all add: divide_le_eq)
      then have "overflow (100 / (1 + q)) = Num (100 / (1 + q))"
        using MAX_VALUE_ge by (intro overflow_Num) simp
      then have d: "js_div (Num 100) (Num (1 + q)) = Num (100 / (1 + q))" using q by simp
      have "\<bar>100 - 100 / (1 + q)\<bar> \<le> MAX_VALUE" using r MAX_VALUE_ge by linarith
      then have "overflow (100 - 100 / (1 + q)) = Num (100 - 100 / (1 + q))"
        by (rule overflow_Num)
      then have "js_sub (Num 100) (Num (100 / (1 + q))) = Num (100 - 100 / (1 + q))"
        by (simp add: js_sub_def)
      then show ?thesis using 2 d r by simp
    qed
  qed
  show ?thesis
  proof (cases "l = 0")
    case True
    have "rsi_of_js (Num g) (Num l) = js_sub (Num 100) (js_div (Num 100) (js_add (Num 1) (Num 0)))"
      using True by (simp add: rsi_of_js_def)
    then show ?thesis using fin [of 0] by simp
  next
    case False
    have q: "0 \<le> g / l" using assms by simp
    have rs: "rsi_of_js (Num g) (Num l) =
        js_sub (Num 100) (js_div (Num 100) (js_add (Num 1) (overflow (g / l))))"
      using False by (simp add: rsi_of_js_def)
    from overflow_nonneg [OF q] show ?thesis
    proof
      assume "overflow (g / l) = PosInf"
      then show ?thesis using rs inf by simp
    next
      assume "overflow (g / l) = Num (g / l)"
      then show ?thesis using rs fin [OF q] by simp
    qed
  qed
qed

lemma wilder_js:
  assumes a: "0 \<le> a" "a \<le> b" and x: "0 \<le> x" "x \<le> b" and p: "0 < p"
    and m: "real p * b \<le> MAX_VALUE"
  shows "\<exists>v. js_div (js_add (js_mul (Num a) (Num (real p - 1))) (Num x)) (Num (real p)) = Num v \<and>
           0 \<le> v \<and> v \<le> b"
proof -
  have p1: "0 \<le> real p - 1" using p by simp
  have b: "0 \<le> b" using a by simp
  have m0: "0 \<le> a * (real p - 1)" using a(1) p1 by simp
  have "a * (real p - 1) \<le> b * (real p - 1)" using a(2) p1 by (rule mult_right_mono)
  then have m1: "a * (real p - 1) + x \<le> real p * b" using x(2) by (simp add: algebra_simps)
  have s0: "0 \<le> a * (real p - 1) + x" using m0 x(1) by simp
  have "overflow (a * (real p - 1)) = Num (a * (real p - 1))"
    using m0 m1 x(1) m by (intro overflow_Num) simp
  then have mul: "js_mul (Num a) (Num (real p - 1)) = Num (a * (real p - 1))" by simp
  have "overflow (a * (real p - 1) + x) = Num (a * (real p - 1) + x)"
    using s0 m1 m by (intro overflow_Num) simp
  then have add: "js_add (Num (a * (real p - 1))) (Num x) = Num (a * (real p - 1) + x)" by simp
  have q0: "0 \<le> (a * (real p - 1) + x) / real p" using s0 by simp
  have q1: "(a * (real p - 1) + x) / real p \<le> b"
    using m1 p by (simp add: divide_le_eq mult.commute)
  have "b \<le> real p * b" using b p by (simp add: mult_le_cancel_right1)
  then have "(a * (real p - 1) + x) / real p \<le> MAX_VALUE" using q1 m by simp
  then have "overflow ((a * (real p - 1) + x) / real p) = Num ((a * (real p - 1) + x) / real p)"
    using q0 by (intro overflow_Num) simp
  then have "js_div (Num (a * (real p - 1) + x)) (Num (real p)) = Num ((a * (real p - 1) + x) / real p)"
    using p by simp
  then show ?thesis using mul add q0 q1 by simp
qed

lemma foldl_js_add:
  assumes "0 \<le> a" "\<forall>y \<in> set ys. 0 \<le> y" "a + sum_list ys \<le> MAX_VALUE"
  shows "foldl js_add (Num a) (map Num ys) = Num (a + sum_list ys)"
  using assms
proof (induction ys arbitrary: a)
  case Nil
  then show ?case by simp
next
  case (Cons y ys)
  have s: "0 \<le> sum_list ys" using Cons.prems(2) by (intro sum_list_nonneg) simp
  have "overflow (a + y) = Num (a + y)"
    using Cons.prems s by (intro overflow_Num) simp
  then have "foldl js_add (Num a) (map Num (y # ys)) = foldl js_add (Num (a + y)) (map Num ys)"
    by simp
  also have "\<dots> = Num (a + y + sum_list ys)"
    using Cons.prems by (intro Cons.IH) (simp_all add: add.assoc)
  finally show ?case by (simp add: add.assoc)
qed

lemma sum_list_bounded:
  fixes ys :: "real list"
  assumes "\<forall>y \<in> set ys. y \<le> b"
  shows "sum_list ys \<le> real (length ys) * b"
  using assms by (induction ys) (auto simp: algebra_simps)

lemma first_average_js:
  assumes g: "\<forall>y \<in> set ys. 0 \<le> y \<and> y \<le> b" and p: "0 < p" "p \<le> length ys"
    and m: "real p * b \<le> MAX_VALUE"
  shows "\<exists>v. js_div (js_sum (take p (map Num ys))) (Num (real p)) = Num v \<and> 0 \<le> v \<and> v \<le> b"
proof -
  let ?zs = "take p ys"
  have z: "\<forall>y \<in> set ?zs. 0 \<le> y \<and> y \<le> b" using g by (auto dest: in_set_takeD)
  have len: "length ?zs = p" using p by simp
  have s0: "0 \<le> sum_list ?zs" using z by (intro sum_list_nonneg) simp
  have s1: "sum_list ?zs \<le> real p * b" using sum_list_bounded [of ?zs b] z len by simp
  have "foldl js_add (Num 0) (map Num ?zs) = Num (0 + sum_list ?zs)"
    using z s1 m by (intro foldl_js_add) simp_all
  then have sum: "js_sum (take p (map Num ys)) = Num (sum_list ?zs)"
    by (simp add: js_sum_def take_map)
  have b: "0 \<le> b"
  proof -
    have "?zs \<noteq> []" using len p by auto
    then obtain y where "y \<in> set ?zs" by (cases ?zs) auto
    then show ?thesis using z by force
  qed
  have q0: "0 \<le> sum_list ?zs / real p" using s0 by simp
  have q1: "sum_list ?zs / real p \<le> b" using s1 p by (simp add: divide_le_eq mult.commute)
  have "b \<le> real p * b" using b p by (simp add: mult_le_cancel_right1)
  then have "sum_list ?zs / real p \<le> MAX_VALUE" using q1 m by simp
  then have "overflow (sum_list ?zs / real p) = Num (sum_list ?zs / real p)"
    using q0 by (intro overflow_Num) simp
  then have "js_div (Num (sum_list ?zs)) (Num (real p)) = Num (sum_list ?zs / real p)"
    using p by simp
  then show ?thesis using sum q0 q1 by simp
qed

lemma changes_js_Num:
  assumes "\<forall>x \<in> set xs. \<bar>x\<bar> \<le> bound" "2 * bound \<le> MAX_VALUE"
  shows "changes_js (map Num xs) = map Num (changes_of xs)"
proof -
  have "js_sub (Num (xs ! i)) (Num (xs ! (i - 1))) = Num (xs ! i - xs ! (i - 1))"
    if i: "i < length xs" for i
  proof -
    have "\<bar>xs ! i\<bar> \<le> bound" "\<bar>xs ! (i - 1)\<bar> \<le> bound" using assms(1) i by simp_all
    then have "\<bar>xs ! i - xs ! (i - 1)\<bar> \<le> MAX_VALUE" using assms(2) by linarith
    then have "overflow (xs ! i - xs ! (i - 1)) = Num (xs ! i - xs ! (i - 1))" by (rule overflow_Num)
    then show ?thesis by (simp add: js_sub_def)
  qed
  then show ?thesis by (auto simp: changes_js_def changes_of_def)
qed

lemma gains_js_Num: "gains_js (map Num cs) = map Num (gains_of cs)"
  by (simp add: gains_js_def gains_of_def)

lemma losses_js_Num: "losses_js (map Num cs) = map Num (losses_of cs)"
  by (simp add: losses_js_def losses_of_def)

lemma changes_of_bounded:
  assumes "\<forall>x \<in> set xs. \<bar>x\<bar> \<le> bound" "c \<in> set (changes_of xs)"
  shows "\<bar>c\<bar> \<le> 2 * bound"
proof -
  from assms(2) obtain i where i: "1 \<le> i" "i < length xs" "c = xs ! i - xs ! (i - 1)"
    by (auto simp: changes_of_def)
  have "\<bar>xs ! i\<bar> \<le> bound" "\<bar>xs ! (i - 1)\<bar> \<le> bound" using assms(1) i by simp_all
  then show ?thesis unfolding i(3) by linarith
qed

lemma gains_of_bounded:
  assumes "\<forall>c \<in> set cs. \<bar>c\<bar> \<le> b" "g \<in> set (gains_of cs)"
  shows "0 \<le> g \<and> g \<le> b"
proof -
  have "0 \<le> b" if "c \<in> set cs" for c using assms(1) that by force
  then show ?thesis using assms by (auto simp: gains_of_def)
qed

lemma losses_of_bounded:
  assumes "\<forall>c \<in> set cs. \<bar>c\<bar> \<le> b" "l \<in> set (losses_of cs)"
  shows "0 \<le> l \<and> l \<le> b"
proof -
  have "0 \<le> b" if "c \<in> set cs" for c using assms(1) that by force
  then show ?thesis using assms by (auto simp: losses_of_def)
qed

lemma rsi_step_js_inv:
  assumes inv: "rsi_inv_js n period b i st"
    and p: "0 < period" and i: "period < i" "i < n"
    and g: "gains ! (i - 1) = Num x" "0 \<le> x" "x \<le> b"
    and l: "losses ! (i - 1) = Num y" "0 \<le> y" "y \<le> b"
    and m: "real period * b \<le> MAX_VALUE"
  shows "rsi_inv_js n period b (Suc i) (rsi_step_js period gains losses i st)"
proof -
  from inv obtain g0 l0 where st: "avgGain_js st = Num g0" "avgLoss_js st = Num l0"
    and g0: "0 \<le> g0" "g0 \<le> b" and l0: "0 \<le> l0" "l0 \<le> b"
    unfolding rsi_inv_js_def by blast
  from wilder_js [OF g0 g(2,3) p m] obtain ag where
    ag: "js_div (js_add (js_mul (Num g0) (Num (real period - 1))) (Num x)) (Num (real period)) = Num ag"
      "0 \<le> ag" "ag \<le> b" by blast
  from wilder_js [OF l0 l(2,3) p m] obtain al where
    al: "js_div (js_add (js_mul (Num l0) (Num (real period - 1))) (Num y)) (Num (real period)) = Num al"
      "0 \<le> al" "al \<le> b" by blast
  from rsi_of_js_bounds [OF ag(2) al(2)] obtain v where
    v: "rsi_of_js (Num ag) (Num al) = Num v" "0 \<le> v" "v \<le> 100" by blast
  have st': "rsi_step_js period gains losses i st =
      \<lparr>avgGain_js = Num ag, avgLoss_js = Num al, rsiValues_js = (rsiValues_js st)[i := Some (Num v)]\<rparr>"
    unfolding rsi_step_js_def Let_def st g(1) l(1) ag(1) al(1) v(1) ..
  have len: "length (rsiValues_js st) = n" using inv by (simp add: rsi_inv_js_def)
  have lo: "\<forall>j<period. ((rsiValues_js st)[i := Some (Num v)]) ! j = None"
    using inv i by (simp add: rsi_inv_js_def)
  have hi: "\<forall>j. period \<le> j \<and> j < Suc i \<longrightarrow>
      (\<exists>w. ((rsiValues_js st)[i := Some (Num v)]) ! j = Some (Num w) \<and> 0 \<le> w \<and> w \<le> 100)"
  proof (intro allI impI)
    fix j assume j: "period \<le> j \<and> j < Suc i"
    show "\<exists>w. ((rsiValues_js st)[i := Some (Num v)]) ! j = Some (Num w) \<and> 0 \<le> w \<and> w \<le> 100"
    proof (cases "j = i")
      case True
      then show ?thesis using v len i by simp
    next
      case False
      then have "j < i" using j by simp
      then show ?thesis using inv j False by (simp add: rsi_inv_js_def)
    qed
  qed
  show ?thesis unfolding st' rsi_inv_js_def using ag al len lo hi by simp
qed

lemma rsi_fold_js_inv:
  assumes p: "0 < period" and a: "period < a" "a \<le> k" "k \<le> n"
    and g: "\<forall>j<n - 1. \<exists>x. gains ! j = Num x \<and> 0 \<le> x \<and> x \<le> b"
    and l: "\<forall>j<n - 1. \<exists>y. losses ! j = Num y \<and> 0 \<le> y \<and> y \<le> b"
    and m: "real period * b \<le> MAX_VALUE"
    and inv: "rsi_inv_js n period b a st"
  shows "rsi_inv_js n period b k (fold (rsi_step_js period gains losses) [a..<k] st)"
  using a(2,3)
proof (induction k)
  case 0
  then show ?case using inv by simp
next
  case (Suc k)
  show ?case
  proof (cases "a \<le> k")
    case True
    then have ih: "rsi_inv_js n period b k (fold (rsi_step_js period gains losses) [a..<k] st)"
      using Suc by simp
    have "k - 1 < n - 1" using Suc.prems a(1) True by simp
    then obtain x y where x: "gains ! (k - 1) = Num x" "0 \<le> x" "x \<le> b"
      and y: "losses ! (k - 1) = Num y" "0 \<le> y" "y \<le> b" using g l by blast
    have "rsi_inv_js n period b (Suc k)
        (rsi_step_js period gains losses k (fold (rsi_step_js period gains losses) [a..<k] st))"
      by (rule rsi_step_js_inv [OF ih p _ _ x y m]) (use a(1) True Suc.prems in simp_all)
    then show ?thesis using True by simp
  next
    case False
    then have "a = Suc k" using Suc.prems by simp
    then show ?thesis using inv by simp
  qed
qed

text \<open>
  Claim C1, as the code has it. A price array shorter than \<open>period + 1\<close> makes
  \<^verbatim>\<open>calculateRSI\<close> throw. For a period of at least one and at least \<open>period + 1\<close> prices
  that are finite numbers of magnitude at most \<open>bound\<close>, where \<open>2 * period * bound\<close> does
  not exceed \<^verbatim>\<open>Number.MAX_VALUE\<close>, so that no difference and no sum overflows, it returns an
  array as long as the input, whose first \<open>period\<close> entries are null and whose entries
  from index \<open>period\<close> on are finite numbers between 0 and 100.
\<close>

theorem calculateRSI_shape:
  "(length prices < period + 1 \<longrightarrow>
      calculateRSI_js prices period = Inl (NeedAtLeastPrices (period + 1))) \<and>
   (1 \<le> period \<and> period + 1 \<le> length prices \<and>
    (\<forall>p \<in> set prices. \<exists>x. p = Num x \<and> \<bar>x\<bar> \<le> bound) \<and>
    2 * real period * bound \<le> MAX_VALUE \<longrightarrow>
      (\<exists>rsis. calculateRSI_js prices period = Inr rsis \<and> length rsis = length prices \<and>
         (\<forall>i<period. rsis ! i = None) \<and>
         (\<forall>i. period \<le> i \<and> i < length prices \<longrightarrow>
            (\<exists>v. rsis ! i = Some (Num v) \<and> 0 \<le> v \<and> v \<le> 100))))"
proof (intro conjI impI)
  assume "length prices < period + 1"
  then show "calculateRSI_js prices period = Inl (NeedAtLeastPrices (period + 1))"
    by (simp add: calculateRSI_js_def)
next
  assume h: "1 \<le> period \<and> period + 1 \<le> length prices \<and>
    (\<forall>p \<in> set prices. \<exists>x. p = Num x \<and> \<bar>x\<bar> \<le> bound) \<and>
    2 * real period * bound \<le> MAX_VALUE"
  define xs where "xs = map (\<lambda>p. case p of Num x \<Rightarrow> x | _ \<Rightarrow> 0) prices"
  have "map (Num \<circ> (\<lambda>p. case p of Num x \<Rightarrow> x | _ \<Rightarrow> 0)) prices = prices"
    by (rule map_idI) (use h in auto)
  then have pr: "prices = map Num xs" by (simp add: xs_def)
  have xb: "\<forall>x \<in> set xs. \<bar>x\<bar> \<le> bound"
    unfolding xs_def using h by auto
  define b where "b = 2 * bound"
  define n where "n = length prices"
  have nx: "n = length xs" by (simp add: n_def pr)
  have pn: "period < n" and p: "0 < period" using h by (simp_all add: n_def)
  have m: "real period * b \<le> MAX_VALUE" using h by (simp add: b_def mult.commute mult.left_commute)
  have b0: "0 \<le> b"
  proof -
    obtain x where "x \<in> set xs" using pn nx by (cases xs) auto
    then show ?thesis using xb unfolding b_def by force
  qed
  have "b \<le> real period * b" using b0 p by (simp add: mult_le_cancel_right1)
  then have m2: "2 * bound \<le> MAX_VALUE" using m by (simp add: b_def)
  define gs where "gs = gains_of (changes_of xs)"
  define ls where "ls = losses_of (changes_of xs)"
  define gains where "gains = gains_js (changes_js prices)"
  define losses where "losses = losses_js (changes_js prices)"
  have gains: "gains = map Num gs"
    unfolding gains_def gs_def pr changes_js_Num [OF xb m2] gains_js_Num ..
  have losses: "losses = map Num ls"
    unfolding losses_def ls_def pr changes_js_Num [OF xb m2] losses_js_Num ..
  have cb: "\<forall>c \<in> set (changes_of xs). \<bar>c\<bar> \<le> b"
    unfolding b_def using changes_of_bounded [OF xb] by blast
  have gb: "\<forall>y \<in> set gs. 0 \<le> y \<and> y \<le> b"
    unfolding gs_def using gains_of_bounded [OF cb] by blast
  have lb: "\<forall>y \<in> set ls. 0 \<le> y \<and> y \<le> b"
    unfolding ls_def using losses_of_bounded [OF cb] by blast
  have leng: "length gs = n - 1" "length ls = n - 1"
    by (simp_all add: gs_def ls_def nx)
  have g: "\<forall>j<n - 1. \<exists>x. gains ! j = Num x \<and> 0 \<le> x \<and> x \<le> b"
    using gb leng by (simp add: gains)
  have l: "\<forall>j<n - 1. \<exists>y. losses ! j = Num y \<and> 0 \<le> y \<and> y \<le> b"
    using lb leng by (simp add: losses)
  have pl: "period \<le> length gs" "period \<le> length ls" using pn leng by simp_all
  from first_average_js [OF gb p pl(1) m] obtain ag where
    ag: "js_div (js_sum (take period gains)) (Num (real period)) = Num ag" "0 \<le> ag" "ag \<le> b"
    unfolding gains by blast
  from first_average_js [OF lb p pl(2) m] obtain al where
    al: "js_div (js_sum (take period losses)) (Num (real period)) = Num al" "0 \<le> al" "al \<le> b"
    unfolding losses by blast
  from rsi_of_js_bounds [OF ag(2) al(2)] obtain v where
    v: "rsi_of_js (Num ag) (Num al) = Num v" "0 \<le> v" "v \<le> 100" by blast
  define st where "st = \<lparr>avgGain_js = Num ag, avgLoss_js = Num al,
        rsiValues_js = (replicate n None)[period := Some (Num v)]\<rparr>"
  define final where "final = fold (rsi_step_js period gains losses) [period + 1..<n] st"
  have res: "calculateRSI_js prices period = Inr (rsiValues_js final)"
    using h by (simp add: calculateRSI_js_def Let_def final_def st_def gains_def [symmetric]
        losses_def [symmetric] ag(1) al(1) v(1) n_def)
  have inv0: "rsi_inv_js n period b (period + 1) st"
    unfolding rsi_inv_js_def st_def using ag al v pn
    by (auto simp: nth_list_update less_Suc_eq_le)
  have "rsi_inv_js n period b n final" unfolding final_def
    using p pn g l m inv0 by (intro rsi_fold_js_inv) simp_all
  then show "\<exists>rsis. calculateRSI_js prices period = Inr rsis \<and> length rsis = length prices \<and>
         (\<forall>i<period. rsis ! i = None) \<and>
         (\<forall>i. period \<le> i \<and> i < length prices \<longrightarrow>
            (\<exists>v. rsis ! i = Some (Num v) \<and> 0 \<le> v \<and> v \<le> 100))"
    unfolding res rsi_inv_js_def n_def by simp
qed

theorem calculateRSI_shape_witness:
  "(length [Num 1, Num 2] < 2 + 1 \<and>
    calculateRSI_js [Num 1, Num 2] 2 = Inl (NeedAtLeastPrices (2 + 1))) \<and>
   ((1::nat) \<le> 2 \<and> 2 + 1 \<le> length [Num 1, Num 2, Num 3, Num 2]) \<and>
   list_all (\<lambda>p. \<exists>x. p = Num x \<and> \<bar>x\<bar> \<le> 3) [Num 1, Num 2, Num 3, Num 2] \<and>
   2 * real 2 * 3 \<le> MAX_VALUE \<and>
   (\<exists>rsis. calculateRSI_js [Num 1, Num 2, Num 3, Num 2] 2 = Inr rsis \<and>
      length rsis = length [Num 1, Num 2, Num 3, Num 2] \<and>
      (\<forall>i<2. rsis ! i = None) \<and>
      (\<forall>i. 2 \<le> i \<and> i < length [Num 1, Num 2, Num 3, Num 2] \<longrightarrow>
         (\<exists>v. rsis ! i = Some (Num v) \<and> 0 \<le> v \<and> v \<le> 100)))"
  using calculateRSI_shape [of "[Num 1, Num 2]" 2]
    calculateRSI_shape [of "[Num 1, Num 2, Num 3, Num 2]" 2 3] MAX_VALUE_ge
  by simp

text \<open>
  Finite prices whose difference overflows: the changes are \<open>-Infinity\<close> and \<open>Infinity\<close>,
  the second average loss is \<open>Infinity * 0\<close>, and the last entry of the result is
  \<^verbatim>\<open>NaN\<close>, which is not a number between 0 and 100. So claim C1 fails for this array.
\<close>

theorem calculateRSI_overflow_NaN:
  "length [Num (10 ^ 308), Num (- (10 ^ 308)), Num (10 ^ 308)] \<ge> 1 + 1 \<and>
   10 ^ 308 \<le> MAX_VALUE \<and>
   calculateRSI_js [Num (10 ^ 308), Num (- (10 ^ 308)), Num (10 ^ 308)] 1 =
     Inr [None, Some (Num 0), Some NaN]"
  by (simp add: calculateRSI_js_def changes_js_def gains_js_def losses_js_def js_sum_def
      rsi_of_js_def rsi_step_js_def js_sub_def overflow_def inf_of_def Let_def upt_rec
      MAX_VALUE_def)

section \<open>Properties of the latest RSI reading\<close>

lemmas rsi_eval =
  fetchRSIFromBinance_def calculateRSI_def changes_of_def gains_of_def losses_of_def
  rsi_step_def rsi_of_def Let_def upt_rec rsi_result_def rsiMA_of_def rsiMA_at_def
  non_null_def slice_def at_last_def at_previous_def or_null_def to_number_def

lemma sorted_last_two:
  assumes "sorted (map f xs)" "2 \<le> length xs"
  shows "f (xs ! (length xs - 2)) \<le> f (xs ! (length xs - 1))"
proof -
  have "map f xs ! (length xs - 2) \<le> map f xs ! (length xs - 1)"
    using assms by (intro sorted_nth_mono) simp_all
  then show ?thesis using assms by simp
qed

lemma distinct_last_two:
  assumes "distinct (map f xs)" "2 \<le> length xs"
  shows "f (xs ! (length xs - 2)) \<noteq> f (xs ! (length xs - 1))"
proof -
  have "length xs - 2 < length (map f xs)" "length xs - 1 < length (map f xs)"
    using assms(2) by simp_all
  then have "(map f xs ! (length xs - 2) = map f xs ! (length xs - 1)) = (length xs - 2 = length xs - 1)"
    by (rule nth_eq_iff_index_eq [OF assms(1)])
  moreover have "length xs - 2 \<noteq> length xs - 1" using assms(2) by simp
  ultimately show ?thesis using assms(2) by simp
qed

lemma rsi_result_unswapped:
  assumes "2 \<le> length fd" "closeTime (fd ! (length fd - 2)) \<le> closeTime (fd ! (length fd - 1))"
  shows "rsi_result tp fd rsis ma =
     \<lparr>symbol = tp, timestamp = closeTime (fd ! (length fd - 1)), price = close (fd ! (length fd - 1)),
      rsi = at_last rsis, rsi_ma = at_last ma,
      previous_timestamp = Some (closeTime (fd ! (length fd - 2))),
      previous_price = Some (close (fd ! (length fd - 2))),
      previous_rsi = or_null (at_previous rsis), previous_rsi_ma = or_null (at_previous ma),
      change = (if or_null (at_previous rsis) \<noteq> None
                then Some (to_number (at_last rsis) - to_number (or_null (at_previous rsis))) else None),
      change_ma = (if or_null (at_previous ma) \<noteq> None
                   then Some (to_number (at_last ma) - to_number (or_null (at_previous ma))) else None),
      price_change = Some (close (fd ! (length fd - 1)) - close (fd ! (length fd - 2))),
      data_points = length fd\<rparr>"
  using assms by (simp add: rsi_result_def Let_def to_number_def)

lemma rsi_result_single:
  assumes "length fd < 2"
  shows "previous_timestamp (rsi_result tp fd rsis ma) = None"
  using assms by (simp add: rsi_result_def Let_def)

text \<open>
  The swap branch of the result builder, which is taken when the previous candle by
  position closes strictly later than the latest one: timestamps and prices are
  exchanged and the previous readings are the latest values, but \<^verbatim>\<open>rsi\<close> and \<^verbatim>\<open>rsi_ma\<close>
  take the previous value only if it is neither null nor 0, and keep the latest value
  otherwise.
\<close>

lemma rsi_result_swapped:
  assumes "2 \<le> length fd" "closeTime (fd ! (length fd - 2)) > closeTime (fd ! (length fd - 1))"
  shows "timestamp (rsi_result tp fd rsis ma) = closeTime (fd ! (length fd - 2)) \<and>
         previous_timestamp (rsi_result tp fd rsis ma) = Some (closeTime (fd ! (length fd - 1))) \<and>
         price (rsi_result tp fd rsis ma) = close (fd ! (length fd - 2)) \<and>
         previous_price (rsi_result tp fd rsis ma) = Some (close (fd ! (length fd - 1))) \<and>
         previous_rsi (rsi_result tp fd rsis ma) = at_last rsis \<and>
         previous_rsi_ma (rsi_result tp fd rsis ma) = at_last ma \<and>
         rsi (rsi_result tp fd rsis ma) =
           (if or_null (at_previous rsis) \<noteq> None then or_null (at_previous rsis) else at_last rsis) \<and>
         rsi_ma (rsi_result tp fd rsis ma) =
           (if or_null (at_previous ma) \<noteq> None then or_null (at_previous ma) else at_last ma)"
  using assms by (simp add: rsi_result_def Let_def to_number_def)

lemma fetchRSI_Inr:
  assumes "fetchRSIFromBinance (Inr klines) tp period maPeriod = Inr r"
  shows "klines \<noteq> [] \<and> (\<exists>rsis. calculateRSI (map close (sort_key closeTime klines)) period = Inr rsis \<and>
           r = rsi_result tp (sort_key closeTime klines) rsis (rsiMA_of rsis maPeriod))"
  using assms by (auto simp: fetchRSIFromBinance_def Let_def split: if_splits sum.splits)

lemma sorted_last_Max:
  fixes f :: "'a \<Rightarrow> int"
  assumes "sorted (map f xs)" "xs \<noteq> []"
  shows "f (xs ! (length xs - 1)) = Max (f ` set xs)"
proof -
  have "Max (f ` set xs) = f (xs ! (length xs - 1))"
  proof (rule Max_eqI)
    show "finite (f ` set xs)" by simp
  next
    fix y assume "y \<in> f ` set xs"
    then obtain i where i: "i < length xs" "y = f (xs ! i)" by (auto simp: in_set_conv_nth)
    have "map f xs ! i \<le> map f xs ! (length xs - 1)"
      using assms i(1) by (intro sorted_nth_mono) simp_all
    then show "y \<le> f (xs ! (length xs - 1))" using i assms(2) by simp
  next
    show "f (xs ! (length xs - 1)) \<in> f ` set xs" using assms(2) by simp
  qed
  then show ?thesis by simp
qed

text \<open>
  Claim C7, as the code has it. The candles are sorted by close time before the last two
  are read. So in every result of \<^verbatim>\<open>fetchRSIFromBinance\<close> the timestamp is the latest
  close time of the candles received; a previous timestamp, if there is one, is not later
  than the timestamp, and strictly earlier when the candles received have pairwise
  different close times. The guard of the swap, a previous candle by position that closes
  strictly later than the latest one, is never true: timestamp, price, RSI and its moving
  average are those of the last candle of the sorted data, and the previous ones those of
  the candle before it (with \<^verbatim>\<open>|| null\<close> applied to the two previous readings).
\<close>

theorem fetchRSI_timestamp_order:
  assumes "fetchRSIFromBinance (Inr klines) tp period maPeriod = Inr r"
    and "fd = sort_key closeTime klines"
  shows "timestamp r = Max (closeTime ` set klines) \<and>
         (\<forall>pt. previous_timestamp r = Some pt \<longrightarrow>
            pt \<le> timestamp r \<and> (distinct (map closeTime klines) \<longrightarrow> pt < timestamp r)) \<and>
         \<not> (2 \<le> length fd \<and> closeTime (fd ! (length fd - 2)) > closeTime (fd ! (length fd - 1))) \<and>
         timestamp r = closeTime (fd ! (length fd - 1)) \<and>
         price r = close (fd ! (length fd - 1)) \<and>
         previous_timestamp r =
           (if 2 \<le> length fd then Some (closeTime (fd ! (length fd - 2))) else None) \<and>
         previous_price r =
           (if 2 \<le> length fd then Some (close (fd ! (length fd - 2))) else None) \<and>
         (\<exists>rsis. calculateRSI (map close fd) period = Inr rsis \<and>
            rsi r = at_last rsis \<and>
            previous_rsi r = or_null (at_previous rsis) \<and>
            rsi_ma r = at_last (rsiMA_of rsis maPeriod) \<and>
            previous_rsi_ma r = or_null (at_previous (rsiMA_of rsis maPeriod)))"
proof -
  from fetchRSI_Inr [OF assms(1)] obtain rs where ne: "klines \<noteq> []"
    and rs: "calculateRSI (map close fd) period = Inr rs"
    and r: "r = rsi_result tp fd rs (rsiMA_of rs maPeriod)"
    unfolding assms(2) by blast
  have srt: "sorted (map closeTime fd)" by (simp add: assms(2))
  have st: "set fd = set klines" by (simp add: assms(2))
  have fne: "fd \<noteq> []" using ne st by auto
  have mx: "closeTime (fd ! (length fd - 1)) = Max (closeTime ` set klines)"
    using sorted_last_Max [OF srt fne] st by simp
  show ?thesis
  proof (cases "2 \<le> length fd")
    case True
    have le: "closeTime (fd ! (length fd - 2)) \<le> closeTime (fd ! (length fd - 1))"
      using srt True by (rule sorted_last_two)
    have strict: "closeTime (fd ! (length fd - 2)) < closeTime (fd ! (length fd - 1))"
      if d: "distinct (map closeTime klines)"
    proof -
      have "distinct (map closeTime fd)" using d by (simp add: assms(2) distinct_map)
      then have "closeTime (fd ! (length fd - 2)) \<noteq> closeTime (fd ! (length fd - 1))"
        using True by (rule distinct_last_two)
      then show ?thesis using le by simp
    qed
    show ?thesis
      unfolding r rsi_result_unswapped [OF True le]
      using True le strict mx rs by simp
  next
    case False
    have f: "timestamp r = closeTime (fd ! (length fd - 1))" "price r = close (fd ! (length fd - 1))"
      "previous_timestamp r = None" "previous_price r = None"
      "rsi r = at_last rs" "previous_rsi r = or_null (at_previous rs)"
      "rsi_ma r = at_last (rsiMA_of rs maPeriod)"
      "previous_rsi_ma r = or_null (at_previous (rsiMA_of rs maPeriod))"
      using False unfolding r by (simp_all add: rsi_result_def Let_def)
    show ?thesis using False f mx rs by simp
  qed
qed

theorem fetchRSI_timestamp_order_witness:
  "fetchRSIFromBinance
      (Inr [flat_candle 10800000 3, flat_candle 7200000 2, flat_candle 3600000 1]) ''BTC/USDT'' 1 1 =
    Inr \<lparr>symbol = ''BTC/USDT'', timestamp = 10800000, price = 3, rsi = Some 0,
        rsi_ma = Some 0, previous_timestamp = Some 7200000,
        previous_price = Some 2, previous_rsi = None,
        previous_rsi_ma = None, change = None, change_ma = None,
        price_change = Some 1, data_points = 3\<rparr> \<and>
   sort_key closeTime [flat_candle 10800000 3, flat_candle 7200000 2, flat_candle 3600000 1] =
     [flat_candle 3600000 1, flat_candle 7200000 2, flat_candle 10800000 3] \<and>
   Max (closeTime ` set [flat_candle 10800000 3, flat_candle 7200000 2, flat_candle 3600000 1]) =
     10800000 \<and>
   distinct (map closeTime [flat_candle 10800000 3, flat_candle 7200000 2, flat_candle 3600000 1]) \<and>
   (7200000 :: int) < 10800000 \<and>
   calculateRSI (map close [flat_candle 3600000 1, flat_candle 7200000 2, flat_candle 10800000 3]) 1 =
     Inr [None, Some 0, Some 0]"
  using fetchRSI_timestamp_order [of
      "[flat_candle 10800000 3, flat_candle 7200000 2, flat_candle 3600000 1]" "''BTC/USDT''" 1 1
      "\<lparr>symbol = ''BTC/USDT'', timestamp = 10800000, price = 3, rsi = Some 0,
        rsi_ma = Some 0, previous_timestamp = Some 7200000,
        previous_price = Some 2, previous_rsi = None,
        previous_rsi_ma = None, change = None, change_ma = None,
        price_change = Some 1, data_points = 3\<rparr>"
      "[flat_candle 3600000 1, flat_candle 7200000 2, flat_candle 10800000 3]"]
  by (simp add: rsi_eval flat_candle_def)

text \<open>
  Two candles with the same close time: the result has a previous timestamp equal to its
  timestamp, so the strict order of claim C7 fails.
\<close>

theorem fetchRSI_equal_timestamps:
  "map_sum id previous_timestamp
     (fetchRSIFromBinance (Inr [flat_candle 7200000 3, flat_candle 7200000 2]) ''BTC/USDT'' 1 1) =
     Inr (Some 7200000) \<and>
   map_sum id timestamp
     (fetchRSIFromBinance (Inr [flat_candle 7200000 3, flat_candle 7200000 2]) ''BTC/USDT'' 1 1) =
     Inr 7200000"
  by (simp add: rsi_eval flat_candle_def)

text \<open>
  Claim C10, for a period of at least one. When the RSI of the previous candle is exactly
  0, the field
  \<^verbatim>\<open>previous_rsi\<close> of the result is null and so is \<^verbatim>\<open>change\<close>; likewise for the moving
  average with \<^verbatim>\<open>previous_rsi_ma\<close> and \<^verbatim>\<open>change_ma\<close>.
\<close>

theorem previous_zero_is_null:
  assumes "0 < period"
    and "fetchRSIFromBinance (Inr klines) tp period maPeriod = Inr r"
    and "calculateRSI (map close (sort_key closeTime klines)) period = Inr rsis"
  shows "(at_previous rsis = Some 0 \<longrightarrow> previous_rsi r = None \<and> change r = None) \<and>
         (at_previous (rsiMA_of rsis maPeriod) = Some 0 \<longrightarrow> previous_rsi_ma r = None \<and> change_ma r = None)"
proof -
  define fd where "fd = sort_key closeTime klines"
  have r: "r = rsi_result tp fd rsis (rsiMA_of rsis maPeriod)"
    using fetchRSI_Inr [OF assms(2)] assms(3) unfolding fd_def by auto
  have srt: "sorted (map closeTime fd)" by (simp add: fd_def)
  show ?thesis
  proof (cases "2 \<le> length fd")
    case True
    have le: "closeTime (fd ! (length fd - 2)) \<le> closeTime (fd ! (length fd - 1))"
      using srt True by (rule sorted_last_two)
    show ?thesis unfolding r rsi_result_unswapped [OF True le] by (simp add: or_null_def)
  next
    case False
    then show ?thesis unfolding r by (simp add: rsi_result_def Let_def or_null_def)
  qed
qed

theorem previous_zero_is_null_witness:
  "fetchRSIFromBinance
      (Inr [flat_candle 10800000 3, flat_candle 7200000 2, flat_candle 3600000 1]) ''BTC/USDT'' 1 1 =
    Inr \<lparr>symbol = ''BTC/USDT'', timestamp = 10800000, price = 3, rsi = Some 0,
        rsi_ma = Some 0, previous_timestamp = Some 7200000,
        previous_price = Some 2, previous_rsi = None,
        previous_rsi_ma = None, change = None, change_ma = None,
        price_change = Some 1, data_points = 3\<rparr> \<and>
   calculateRSI (map close (sort_key closeTime
      [flat_candle 10800000 3, flat_candle 7200000 2, flat_candle 3600000 1])) 1 =
    Inr [None, Some 0, Some 0] \<and>
   (0::nat) < 1 \<and>
   at_previous [None, Some 0, Some (0::real)] = Some 0 \<and>
   at_previous (rsiMA_of [None, Some 0, Some 0] 1) = Some 0"
  using previous_zero_is_null [of 1
      "[flat_candle 10800000 3, flat_candle 7200000 2, flat_candle 3600000 1]" "''BTC/USDT''" 1
      "\<lparr>symbol = ''BTC/USDT'', timestamp = 10800000, price = 3, rsi = Some 0,
        rsi_ma = Some 0, previous_timestamp = Some 7200000,
        previous_price = Some 2, previous_rsi = None,
        previous_rsi_ma = None, change = None, change_ma = None,
        price_change = Some 1, data_points = 3\<rparr>" "[None, Some 0, Some 0]"]
  by (simp add: rsi_eval flat_candle_def)

section \<open>Properties of the candle request\<close>

text \<open>
  Claim C6 at an exchange that answers 429 without a \<^verbatim>\<open>Retry-After\<close> header to the first
  two requests and succeeds at the third: \<^verbatim>\<open>getBinanceKlines\<close> waits 60 seconds twice and
  sends three requests, that is, it retries twice.
\<close>

theorem getBinanceKlines_retries_twice:
  "getBinanceKlines (\<lambda>n. if n < 2 then Failed 429 None else Ok []) 0 [] =
     Some \<lparr>returned = Inr [], requests = 3, waits = [60000, 60000]\<rparr>"
  by (simp add: getBinanceKlines.simps waitTime_def)

text \<open>At an exchange that answers 429 to every request the function never returns.\<close>

lemma never_returns_aux:
  assumes "getBinanceKlines server n waited = Some y" and "\<forall>k. \<exists>ra. server k = Failed 429 ra"
  shows False
proof -
  have "(\<forall>k. \<exists>ra. server k = Failed 429 ra) \<longrightarrow> False"
  proof (rule getBinanceKlines.raw_induct
      [where P = "\<lambda>server n waited y. (\<forall>k. \<exists>ra. server k = Failed 429 ra) \<longrightarrow> False"])
    show "getBinanceKlines server n waited = Some y" by (rule assms(1))
  next
    fix f :: "(nat \<Rightarrow> response) \<Rightarrow> nat \<Rightarrow> nat list \<Rightarrow> klines_run option"
    fix srv m w z
    assume IH: "\<And>s a b c. f s a b = Some c \<Longrightarrow> (\<forall>k. \<exists>ra. s k = Failed 429 ra) \<longrightarrow> False"
      and step: "(case srv m of
          Ok klines \<Rightarrow> Some \<lparr>returned = Inr klines, requests = m + 1, waits = w\<rparr>
        | Failed status retryAfter \<Rightarrow>
            if status = 429 then f srv (m + 1) (w @ [waitTime retryAfter])
            else if status = 418 then
              Some \<lparr>returned = Inl IpBanned, requests = m + 1, waits = w\<rparr>
            else Some \<lparr>returned = Inl (BinanceApiError status), requests = m + 1, waits = w\<rparr>
        | Unreachable \<Rightarrow> Some \<lparr>returned = Inl NetworkFailure, requests = m + 1, waits = w\<rparr>) = Some z"
    show "(\<forall>k. \<exists>ra. srv k = Failed 429 ra) \<longrightarrow> False"
    proof
      assume all: "\<forall>k. \<exists>ra. srv k = Failed 429 ra"
      then obtain ra where "srv m = Failed 429 ra" by blast
      with step have "f srv (m + 1) (w @ [waitTime ra]) = Some z" by simp
      from IH [OF this] all show False by blast
    qed
  qed
  then show False using assms(2) by blast
qed

lemma never_returns:
  "getBinanceKlines (\<lambda>n. Failed 429 ra) n waited = None"
proof (cases "getBinanceKlines (\<lambda>n. Failed 429 ra) n waited")
  case None
  then show ?thesis .
next
  case (Some y)
  then show ?thesis using never_returns_aux [OF Some] by blast
qed

text \<open>
  Status 418 and any status other than 429 raise at once, without a retry; a 429 followed
  by a success waits for the time of the header and returns the second answer.
\<close>

lemma single_answers:
  "server n = Failed 418 ra \<Longrightarrow> getBinanceKlines server n waited =
      Some \<lparr>returned = Inl IpBanned, requests = n + 1, waits = waited\<rparr>"
  "server n = Failed status ra \<Longrightarrow> status \<noteq> 429 \<Longrightarrow> status \<noteq> 418 \<Longrightarrow>
     getBinanceKlines server n waited =
      Some \<lparr>returned = Inl (BinanceApiError status), requests = n + 1, waits = waited\<rparr>"
  "server n = Failed 429 ra \<Longrightarrow> server (n + 1) = Ok ks \<Longrightarrow>
     getBinanceKlines server n waited =
      Some \<lparr>returned = Inr ks, requests = n + 2, waits = waited @ [waitTime ra]\<rparr>"
  by (simp_all add: getBinanceKlines.simps)

section \<open>Properties of the cadence check\<close>














section \<open>Properties of merging and deduplication\<close>

lemma set_removeDuplicates: "set (removeDuplicates g seen xs) \<subseteq> set xs"
  by (induction xs arbitrary: seen) auto

lemma keys_removeDuplicates:
  "g ` set (removeDuplicates g seen xs) = g ` set xs - seen"
  by (induction xs arbitrary: seen) auto

lemma distinct_removeDuplicates: "distinct (map g (removeDuplicates g seen xs))"
proof (induction xs arbitrary: seen)
  case Nil
  then show ?case by simp
next
  case (Cons e es)
  have "g e \<notin> g ` set (removeDuplicates g (insert (g e) seen) es)"
    unfolding keys_removeDuplicates by simp
  then show ?case using Cons by simp
qed

lemma sorted_removeDuplicates:
  "sorted (map k xs) \<Longrightarrow> sorted (map k (removeDuplicates g seen xs))"
proof (induction xs arbitrary: seen)
  case Nil
  then show ?case by simp
next
  case (Cons e es)
  have "\<forall>y \<in> set (removeDuplicates g (insert (g e) seen) es). k e \<le> k y"
    using Cons.prems set_removeDuplicates [of g "insert (g e) seen" es] by auto
  then show ?case using Cons by simp
qed

lemma removeDuplicates_insert_other:
  "a \<notin> g ` set ys \<Longrightarrow> removeDuplicates g (insert a seen) ys = removeDuplicates g seen ys"
proof (induction ys arbitrary: seen)
  case Nil
  then show ?case by simp
next
  case (Cons y ys)
  then have a: "a \<noteq> g y" and b: "a \<notin> g ` set ys" by auto
  have "removeDuplicates g (insert a (insert (g y) seen)) ys =
        removeDuplicates g (insert (g y) seen) ys"
    using b by (rule Cons.IH)
  moreover have "removeDuplicates g (insert a seen) ys = removeDuplicates g seen ys"
    using b by (rule Cons.IH)
  ultimately show ?case using a by (auto simp: insert_commute)
qed

lemma removeDuplicates_seen: "g ` set ys \<subseteq> seen \<Longrightarrow> removeDuplicates g seen ys = []"
  by (induction ys) auto

lemma removeDuplicates_absorb:
  "distinct (map g xs) \<Longrightarrow> g ` set xs \<inter> seen = {} \<Longrightarrow> g ` set ys \<subseteq> seen \<union> g ` set xs \<Longrightarrow>
   removeDuplicates g seen (xs @ ys) = xs"
proof (induction xs arbitrary: seen)
  case Nil
  then show ?case by (simp add: removeDuplicates_seen)
next
  case (Cons x xs)
  have "removeDuplicates g (insert (g x) seen) (xs @ ys) = xs"
    using Cons.prems by (intro Cons.IH) auto
  then show ?case using Cons.prems by simp
qed

lemma removeDuplicates_filter:
  assumes det: "\<And>x y. g x = g y \<Longrightarrow> k x = k y"
  shows "filter (\<lambda>x. k x = t) (removeDuplicates g seen xs) =
         removeDuplicates g seen (filter (\<lambda>x. k x = t) xs)"
proof (induction xs arbitrary: seen)
  case Nil
  then show ?case by simp
next
  case (Cons e es)
  show ?case
  proof (cases "k e = t")
    case True
    then show ?thesis using Cons by simp
  next
    case False
    have "g e \<notin> g ` set (filter (\<lambda>x. k x = t) es)"
    proof
      assume "g e \<in> g ` set (filter (\<lambda>x. k x = t) es)"
      then obtain y where y: "k y = t" "g e = g y" by auto
      have "k e = k y" using y(2) by (rule det)
      then show False using False y(1) by simp
    qed
    then have "removeDuplicates g (insert (g e) seen) (filter (\<lambda>x. k x = t) es) =
               removeDuplicates g seen (filter (\<lambda>x. k x = t) es)"
      by (rule removeDuplicates_insert_other)
    then show ?thesis using False Cons by simp
  qed
qed

lemma sorted_lists_eqI:
  fixes k :: "'a \<Rightarrow> int"
  assumes "sorted (map k xs)" "sorted (map k ys)"
    and fl: "\<And>t. filter (\<lambda>x. k x = t) xs = filter (\<lambda>x. k x = t) ys"
  shows "xs = ys"
proof -
  have m: "mset ys = mset xs"
  proof (rule multiset_eqI)
    fix x
    have "count (mset ys) x = count (mset (filter (\<lambda>y. k y = k x) ys)) x" by simp
    also have "\<dots> = count (mset (filter (\<lambda>y. k y = k x) xs)) x" by (simp only: fl)
    also have "\<dots> = count (mset xs) x" by simp
    finally show "count (mset ys) x = count (mset xs) x" .
  qed
  have "sort_key k xs = ys"
  proof (rule properties_for_sort_key [OF m])
    fix x assume "x \<in> set ys"
    show "filter (\<lambda>y. k x = k y) ys = filter (\<lambda>y. k x = k y) xs"
      using fl [of "k x"] by (simp add: eq_commute)
  next
    show "sorted (map k ys)" by (rule assms(2))
  qed
  moreover have "sort_key k xs = xs" using assms(1) by (rule sort_key_id_if_sorted)
  ultimately show ?thesis by simp
qed

lemma remerge_same:
  fixes k :: "'a \<Rightarrow> int"
  assumes det: "\<And>x y. g x = g y \<Longrightarrow> k x = k y"
    and M: "M = removeDuplicates g {} (sort_key k (pre @ inc))"
  shows "removeDuplicates g {} (sort_key k (M @ inc)) = M"
proof (rule sorted_lists_eqI [where k = k])
  show "sorted (map k (removeDuplicates g {} (sort_key k (M @ inc))))"
    by (rule sorted_removeDuplicates) simp
  show sM: "sorted (map k M)" unfolding M by (rule sorted_removeDuplicates) simp
  fix t
  have dM: "distinct (map g M)" unfolding M by (rule distinct_removeDuplicates)
  have kM: "g ` set inc \<subseteq> g ` set M" unfolding M keys_removeDuplicates by auto
  have "filter (\<lambda>x. k x = t) (removeDuplicates g {} (sort_key k (M @ inc))) =
        removeDuplicates g {} (filter (\<lambda>x. k x = t) (sort_key k (M @ inc)))"
    using det by (rule removeDuplicates_filter)
  also have "filter (\<lambda>x. k x = t) (sort_key k (M @ inc)) =
        filter (\<lambda>x. k x = t) M @ filter (\<lambda>x. k x = t) inc"
    by (simp add: sort_key_stable)
  also have "removeDuplicates g {} (filter (\<lambda>x. k x = t) M @ filter (\<lambda>x. k x = t) inc) =
        filter (\<lambda>x. k x = t) M"
  proof (rule removeDuplicates_absorb)
    show "distinct (map g (filter (\<lambda>x. k x = t) M))" using dM by (simp add: distinct_map_filter)
    show "g ` set (filter (\<lambda>x. k x = t) M) \<inter> {} = {}" by simp
    show "g ` set (filter (\<lambda>x. k x = t) inc) \<subseteq> {} \<union> g ` set (filter (\<lambda>x. k x = t) M)"
    proof
      fix a assume "a \<in> g ` set (filter (\<lambda>x. k x = t) inc)"
      then obtain y where y: "y \<in> set inc" "k y = t" "a = g y" by auto
      have "g y \<in> g ` set M" using kM y(1) by blast
      then obtain m where m: "m \<in> set M" "g m = g y" by auto
      have "k m = k y" using m(2) by (rule det)
      then have "k m = t" using y(2) by simp
      then have "m \<in> set (filter (\<lambda>x. k x = t) M)" using m by simp
      then have "g m \<in> g ` set (filter (\<lambda>x. k x = t) M)" by (rule imageI)
      then show "a \<in> {} \<union> g ` set (filter (\<lambda>x. k x = t) M)" using m y by simp
    qed
  qed
  finally show "filter (\<lambda>x. k x = t) (removeDuplicates g {} (sort_key k (M @ inc))) =
        filter (\<lambda>x. k x = t) M" .
qed


lemma removeDuplicates_Nil_iff: "removeDuplicates g {} xs = [] \<longleftrightarrow> xs = []"
  by (cases xs) auto

lemma sort_key_Nil_iff: "sort_key k xs = [] \<longleftrightarrow> xs = []"
proof
  assume "sort_key k xs = []"
  then have "length (sort_key k xs) = 0" by simp
  then show "xs = []" by (simp only: length_sort length_0_conv)
next
  assume "xs = []"
  then show "sort_key k xs = []" by simp
qed

text \<open>The merge, sort and deduplication for any sort key \<open>k\<close> and any key \<open>g\<close> of
  identity that determines the sort key.\<close>

lemma merge_twice:
  fixes k :: "'a \<Rightarrow> int"
  assumes det: "\<And>x y. g x = g y \<Longrightarrow> k x = k y"
    and M: "M = removeDuplicates g {} (sort_key k (mergeCached c f inc))"
    and c': "c' = Some M \<or> c' = as_cachedData (Some M)"
  shows "removeDuplicates g {} (sort_key k (mergeCached c' f inc)) = M"
proof (cases "inc = []")
  case True
  show ?thesis
  proof (cases "M = []")
    case T2: True
    then show ?thesis using True c' by (auto simp: mergeCached_def as_cachedData_def)
  next
    case False
    then have c'': "c' = Some M" using c' by (auto simp: as_cachedData_def)
    have "mergeCached c f inc \<noteq> []" using False M by auto
    then obtain cd where cd: "c = Some cd" "\<not> f" "mergeCached c f inc = cd @ inc"
      using True by (auto simp: mergeCached_def split: option.splits if_splits)
    have m2: "mergeCached c' f inc = M @ inc" using c'' cd by (simp add: mergeCached_def)
    have Meq: "M = removeDuplicates g {} (sort_key k (cd @ inc))" using M cd by simp
    show ?thesis unfolding m2 by (rule remerge_same [OF det Meq])
  qed
next
  case False
  then have "mergeCached c f inc \<noteq> []" by (auto simp: mergeCached_def split: option.splits)
  then have "M \<noteq> []" using M by (simp add: removeDuplicates_Nil_iff sort_key_Nil_iff)
  then have c'': "c' = Some M" using c' by (auto simp: as_cachedData_def)
  have m2: "mergeCached c' f inc = M @ inc" using c'' False by (simp add: mergeCached_def)
  have "\<exists>pre. mergeCached c f inc = pre @ inc"
  proof (cases c)
    case None
    then have "mergeCached c f inc = [] @ inc" by (simp add: mergeCached_def)
    then show ?thesis by blast
  next
    case (Some cd)
    then have "mergeCached c f inc = cd @ inc" using False by (simp add: mergeCached_def)
    then show ?thesis by blast
  qed
  then obtain pre where "mergeCached c f inc = pre @ inc" by blast
  then have Meq: "M = removeDuplicates g {} (sort_key k (pre @ inc))" using M by simp
  show ?thesis unfolding m2 by (rule remerge_same [OF det Meq])
qed

text \<open>
  Claim C9. Merging an increment into the cached collection, sorting and removing
  duplicates, and then merging the same increment into the result once more, gives the
  result of the first merge again. This holds for the oversold events (key: symbol and
  timestamp) and for the breakout signals (key: symbol, re-entry time and breakout time),
  whether the first result is taken as it is or as a later call reads it from the cache.
\<close>

theorem merge_idempotent:
  "uniqueEvents_of (Some (uniqueEvents_of cachedData forceRefresh allEvents)) forceRefresh allEvents =
     uniqueEvents_of cachedData forceRefresh allEvents \<and>
   uniqueEvents_of (as_cachedData (Some (uniqueEvents_of cachedData forceRefresh allEvents)))
       forceRefresh allEvents =
     uniqueEvents_of cachedData forceRefresh allEvents \<and>
   uniqueSignals_of (Some (uniqueSignals_of cachedSignals forceRefresh allSignals)) forceRefresh allSignals =
     uniqueSignals_of cachedSignals forceRefresh allSignals \<and>
   uniqueSignals_of (as_cachedData (Some (uniqueSignals_of cachedSignals forceRefresh allSignals)))
       forceRefresh allSignals =
     uniqueSignals_of cachedSignals forceRefresh allSignals"
proof -
  have e: "event_key x = event_key y \<Longrightarrow> - ev_timestamp x = - ev_timestamp y" for x y
    by (simp add: event_key_def)
  have s: "signal_key x = signal_key y \<Longrightarrow> - reentryTime x = - reentryTime y" for x y
    by (simp add: signal_key_def)
  have e1: "uniqueEvents_of (Some (uniqueEvents_of cachedData forceRefresh allEvents))
        forceRefresh allEvents = uniqueEvents_of cachedData forceRefresh allEvents"
    unfolding uniqueEvents_of_def by (rule merge_twice [where g = event_key and k = "\<lambda>e. - ev_timestamp e", OF e refl]) (assumption, rule disjI1, rule refl)
  have e2: "uniqueEvents_of (as_cachedData (Some (uniqueEvents_of cachedData forceRefresh allEvents)))
        forceRefresh allEvents = uniqueEvents_of cachedData forceRefresh allEvents"
    unfolding uniqueEvents_of_def by (rule merge_twice [where g = event_key and k = "\<lambda>e. - ev_timestamp e", OF e refl]) (assumption, rule disjI2, rule refl)
  have s1: "uniqueSignals_of (Some (uniqueSignals_of cachedSignals forceRefresh allSignals))
        forceRefresh allSignals = uniqueSignals_of cachedSignals forceRefresh allSignals"
    unfolding uniqueSignals_of_def by (rule merge_twice [where g = signal_key and k = "\<lambda>s. - reentryTime s", OF s refl]) (assumption, rule disjI1, rule refl)
  have s2: "uniqueSignals_of (as_cachedData (Some (uniqueSignals_of cachedSignals forceRefresh allSignals)))
        forceRefresh allSignals = uniqueSignals_of cachedSignals forceRefresh allSignals"
    unfolding uniqueSignals_of_def by (rule merge_twice [where g = signal_key and k = "\<lambda>s. - reentryTime s", OF s refl]) (assumption, rule disjI2, rule refl)
  show ?thesis using e1 e2 s1 s2 by simp
qed

section \<open>Properties of the oversold history\<close>

lemma sorted_desc: "sorted (map (\<lambda>e. - k e) xs) \<Longrightarrow> sorted (rev (map k xs))" for k :: "'a \<Rightarrow> int"
  by (induction xs) (auto simp: sorted_append)

lemma oversoldEvents_below: "e \<in> set (oversoldEvents s thr h) \<Longrightarrow> ev_rsi e \<le> thr"
  by (auto simp: oversoldEvents_def)

lemma uniqueEvents_ok:
  assumes c: "case c of None \<Rightarrow> True | Some cd \<Rightarrow> oversold_ok thr cd"
    and a: "\<forall>e \<in> set allEvents. ev_rsi e \<le> thr"
  shows "oversold_ok thr (uniqueEvents_of c f allEvents)"
proof -
  have m: "\<forall>e \<in> set (mergeCached c f allEvents). ev_rsi e \<le> thr"
    using c a by (auto simp: mergeCached_def oversold_ok_def list_all_iff split: option.splits if_splits)
  have "set (uniqueEvents_of c f allEvents) \<subseteq> set (mergeCached c f allEvents)"
    unfolding uniqueEvents_of_def using set_removeDuplicates [of event_key "{}"] by fastforce
  then have 1: "list_all (\<lambda>e. ev_rsi e \<le> thr) (uniqueEvents_of c f allEvents)"
    using m by (auto simp: list_all_iff)
  have 2: "distinct (map event_key (uniqueEvents_of c f allEvents))"
    unfolding uniqueEvents_of_def by (rule distinct_removeDuplicates)
  have "sorted (map (\<lambda>e. - ev_timestamp e) (uniqueEvents_of c f allEvents))"
    unfolding uniqueEvents_of_def by (rule sorted_removeDuplicates) simp
  then have 3: "sorted (rev (map ev_timestamp (uniqueEvents_of c f allEvents)))"
    by (rule sorted_desc)
  show ?thesis using 1 2 3 by (simp add: oversold_ok_def)
qed

lemma CacheUtils_get_slot:
  assumes "slot_ok key thr store" "CacheUtils_get store key now = (cached, store1)"
  shows "slot_ok key thr store1 \<and>
         (case as_cachedData (map_option fst cached) of None \<Rightarrow> True | Some cd \<Rightarrow> oversold_ok thr cd)"
  using assms
  by (auto simp: CacheUtils_get_def slot_ok_def as_cachedData_def split: option.splits if_splits)

lemma CacheUtils_set_slot:
  "oversold_ok thr d \<Longrightarrow> slot_ok key thr (CacheUtils_set store key d expiry now)"
  by (simp add: CacheUtils_set_def slot_ok_def)

lemma fetchOversoldHistory_step:
  assumes ok: "slot_ok key thr store"
    and f: "fetchOversoldHistory store key now net symbols days thr force = (events, store')"
  shows "oversold_ok thr events \<and> slot_ok key thr store'"
proof -
  obtain cached store1 where g: "CacheUtils_get store key now = (cached, store1)"
    by (cases "CacheUtils_get store key now")
  define cachedData where "cachedData = as_cachedData (map_option fst cached)"
  define maxTimestamp where "maxTimestamp = map_option (\<lambda>cd. Max (set (map ev_timestamp cd))) cachedData"
  define allEvents where "allEvents = concat (map (\<lambda>s.
      case fetchHistoricalRSI (net s) s days 14 (map_option (\<lambda>m. m - 60 * 1000) maxTimestamp) now of
        Inl e \<Rightarrow> []
      | Inr historicalRSI \<Rightarrow> oversoldEvents s thr historicalRSI) symbols)"
  define uniqueEvents where "uniqueEvents = uniqueEvents_of cachedData force allEvents"
  define store2 where "store2 = CacheUtils_set store1 key uniqueEvents (60 * 60 * 1000) now"
  have s1: "slot_ok key thr store1"
    and cd: "case cachedData of None \<Rightarrow> True | Some cd \<Rightarrow> oversold_ok thr cd"
    using CacheUtils_get_slot [OF ok g] by (simp_all add: cachedData_def)
  have a: "\<forall>e \<in> set allEvents. ev_rsi e \<le> thr"
    unfolding allEvents_def by (auto split: sum.splits dest: oversoldEvents_below)
  have u: "oversold_ok thr uniqueEvents" unfolding uniqueEvents_def using cd a by (rule uniqueEvents_ok)
  have s2: "slot_ok key thr store2" unfolding store2_def using u by (rule CacheUtils_set_slot)
  have "fetchOversoldHistory store key now net symbols days thr force =
      (if cachedData \<noteq> None \<and> \<not> force \<and> \<not> hasNewCandleAvailable now maxTimestamp ''1h''
       then (case cachedData of Some cd \<Rightarrow> (cd, store1) | None \<Rightarrow> ([], store1))
       else case cachedData of
              Some cd \<Rightarrow> if allEvents \<noteq> [] then (uniqueEvents, store2) else (cd, store2)
            | None \<Rightarrow> (uniqueEvents, store2))"
    unfolding fetchOversoldHistory_def g cachedData_def maxTimestamp_def allEvents_def
      uniqueEvents_def store2_def Let_def
    by simp
  then have res: "(events, store') =
      (if cachedData \<noteq> None \<and> \<not> force \<and> \<not> hasNewCandleAvailable now maxTimestamp ''1h''
       then (case cachedData of Some cd \<Rightarrow> (cd, store1) | None \<Rightarrow> ([], store1))
       else case cachedData of
              Some cd \<Rightarrow> if allEvents \<noteq> [] then (uniqueEvents, store2) else (cd, store2)
            | None \<Rightarrow> (uniqueEvents, store2))"
    using f by simp
  show ?thesis
  proof (cases cachedData)
    case None
    then show ?thesis using res u s2 by simp
  next
    case (Some cd0)
    then have "oversold_ok thr cd0" using cd by simp
    then show ?thesis using res Some u s1 s2 by (auto split: if_splits)
  qed
qed

lemma oversold_cache_slot:
  "oversold_cache key thr store \<Longrightarrow> slot_ok key thr store"
proof (induction rule: oversold_cache.induct)
  case (fresh store)
  then show ?case by (simp add: slot_ok_def)
next
  case (called store now net symbols days forceRefresh events store')
  then show ?case using fetchOversoldHistory_step by blast
next
  case (elsewhere store store')
  then show ?case by (simp add: slot_ok_def)
qed

text \<open>
  Claim C8. Whatever the cache holds after earlier calls, the array returned by
  \<^verbatim>\<open>fetchOversoldHistory\<close> contains only events with an RSI at or below the threshold, no
  two events with the same symbol and timestamp, and is sorted by timestamp, the most
  recent first.
\<close>

theorem oversold_history_ok:
  assumes "oversold_cache cacheKey rsiThreshold store"
    and "fetchOversoldHistory store cacheKey now net symbols days rsiThreshold forceRefresh =
           (events, store')"
  shows "(\<forall>e \<in> set events. ev_rsi e \<le> rsiThreshold) \<and>
         distinct (map (\<lambda>e. (ev_symbol e, ev_timestamp e)) events) \<and>
         sorted (rev (map ev_timestamp events))"
proof -
  have "oversold_ok rsiThreshold events"
    using fetchOversoldHistory_step [OF oversold_cache_slot [OF assms(1)] assms(2)] by simp
  moreover have "map event_key events = map (\<lambda>e. (ev_symbol e, ev_timestamp e)) events"
    by (simp add: event_key_def)
  ultimately show ?thesis by (simp add: oversold_ok_def list_all_iff)
qed

lemmas oversold_eval =
  fetchOversoldHistory_def CacheUtils_get_def CacheUtils_set_def as_cachedData_def
  fetchHistoricalRSI_def net_falling_def flat_candle_def calculateRSI_def changes_of_def
  gains_of_def losses_of_def rsi_step_def rsi_of_def Let_def upt_rec toFixed2_def
  oversoldEvents_def uniqueEvents_of_def mergeCached_def event_key_def

theorem oversold_history_ok_witness:
  "oversold_cache ''k'' 30 Map.empty \<and>
   fetchOversoldHistory Map.empty ''k'' 57600000 net_falling [''BTC/USDT''] 7 30 False =
     ([\<lparr>ev_symbol = ''BTC'', ev_timestamp = 57600000, ev_rsi = 0, ev_price = 1\<rparr>,
       \<lparr>ev_symbol = ''BTC'', ev_timestamp = 54000000, ev_rsi = 0, ev_price = 2\<rparr>],
      CacheUtils_set Map.empty ''k''
        [\<lparr>ev_symbol = ''BTC'', ev_timestamp = 57600000, ev_rsi = 0, ev_price = 1\<rparr>,
         \<lparr>ev_symbol = ''BTC'', ev_timestamp = 54000000, ev_rsi = 0, ev_price = 2\<rparr>]
        3600000 57600000) \<and>
   list_all (\<lambda>e. ev_rsi e \<le> 30)
      [\<lparr>ev_symbol = ''BTC'', ev_timestamp = 57600000, ev_rsi = 0, ev_price = 1\<rparr>,
       \<lparr>ev_symbol = ''BTC'', ev_timestamp = 54000000, ev_rsi = 0, ev_price = 2\<rparr>] \<and>
   distinct (map (\<lambda>e. (ev_symbol e, ev_timestamp e))
      [\<lparr>ev_symbol = ''BTC'', ev_timestamp = 57600000, ev_rsi = 0, ev_price = 1\<rparr>,
       \<lparr>ev_symbol = ''BTC'', ev_timestamp = 54000000, ev_rsi = 0, ev_price = 2\<rparr>]) \<and>
   sorted (rev (map ev_timestamp
      [\<lparr>ev_symbol = ''BTC'', ev_timestamp = 57600000, ev_rsi = 0, ev_price = 1\<rparr>,
       \<lparr>ev_symbol = ''BTC'', ev_timestamp = 54000000, ev_rsi = 0, ev_price = 2\<rparr>]))"
proof -
  have c: "oversold_cache ''k'' 30 Map.empty" by (rule oversold_cache.fresh) simp
  have f: "fetchOversoldHistory Map.empty ''k'' 57600000 net_falling [''BTC/USDT''] 7 30 False =
     ([\<lparr>ev_symbol = ''BTC'', ev_timestamp = 57600000, ev_rsi = 0, ev_price = 1\<rparr>,
       \<lparr>ev_symbol = ''BTC'', ev_timestamp = 54000000, ev_rsi = 0, ev_price = 2\<rparr>],
      CacheUtils_set Map.empty ''k''
        [\<lparr>ev_symbol = ''BTC'', ev_timestamp = 57600000, ev_rsi = 0, ev_price = 1\<rparr>,
         \<lparr>ev_symbol = ''BTC'', ev_timestamp = 54000000, ev_rsi = 0, ev_price = 2\<rparr>]
        3600000 57600000)"
    by (simp add: oversold_eval)
  show ?thesis using oversold_history_ok [OF c f] c f by (simp add: list_all_iff)
qed

section \<open>Properties of the breakout scan\<close>

lemma result_newSignal [simp]: "result (newSignal rh rl cs i fb) = Pending"
  by (simp add: newSignal_def Let_def split: prod.splits)

lemma made_at_mono: "made_at rh rl cs k p \<Longrightarrow> k \<le> k' \<Longrightarrow> made_at rh rl cs k' p"
  unfolding made_at_def by (auto intro: less_le_trans)

lemma waiting_ok_mono: "waiting_ok rh rl cs k fb \<Longrightarrow> k \<le> k' \<Longrightarrow> waiting_ok rh rl cs k' fb"
  unfolding waiting_ok_def by auto

lemma made_at_result: "made_at rh rl cs k p \<Longrightarrow> made_at rh rl cs k (p\<lparr>result := r\<rparr>)"
  unfolding made_at_def by simp

lemma closePosition_made:
  "closePosition c p = (p', isClosed) \<Longrightarrow> made_at rh rl cs k p \<Longrightarrow> made_at rh rl cs k p'"
  by (auto simp: closePosition_def made_at_result split: if_splits)

lemma position_phase_inv:
  assumes "scan_inv rh rl cs k st" "position_phase c st = (st1, skip)"
  shows "scan_inv rh rl cs k st1"
proof -
  let ?ps = "validBreakoutReentryPairs st"
  have all: "list_all (made_at rh rl cs k) ?ps" using assms(1) by (simp add: scan_inv_def)
  show ?thesis
  proof (cases "hasOpenPosition st \<and> ?ps \<noteq> [] \<and> result (last ?ps) = Pending")
    case True
    obtain p' isClosed where cp: "closePosition c (last ?ps) = (p', isClosed)"
      by (cases "closePosition c (last ?ps)")
    have "made_at rh rl cs k (last ?ps)" using all True by (simp add: list_all_iff)
    then have p': "made_at rh rl cs k p'" using cp closePosition_made by blast
    have bl: "list_all (made_at rh rl cs k) (butlast ?ps)"
      using all by (auto simp: list_all_iff dest: in_set_butlastD)
    show ?thesis using assms True cp p' bl
      by (auto simp: position_phase_def scan_inv_def split: if_splits)
  next
    case False
    then show ?thesis using assms
      by (auto simp: position_phase_def scan_inv_def split: if_splits)
  qed
qed

lemma breakout_phase_inv:
  assumes "scan_inv rh rl cs k st"
  shows "scan_inv rh rl cs (Suc k) (breakout_phase rh rl cs k st)"
proof -
  have all: "list_all (made_at rh rl cs (Suc k)) (validBreakoutReentryPairs st)"
    using assms by (auto simp: scan_inv_def list_all_iff intro: made_at_mono)
  show ?thesis
  proof (cases "firstBreakout st")
    case None
    then show ?thesis using all
      by (auto simp: breakout_phase_def scan_inv_def Let_def waiting_ok_def)
  next
    case (Some fb)
    then have w: "waiting_ok rh rl cs k fb" using assms by (simp add: scan_inv_def)
    then have w': "waiting_ok rh rl cs (Suc k) fb" by (rule waiting_ok_mono) simp
    have "made_at rh rl cs (Suc k) (newSignal rh rl cs k fb)"
      unfolding made_at_def using w
      by (intro exI [of _ fb] exI [of _ k]) simp
    then show ?thesis using Some all w'
      by (auto simp: breakout_phase_def scan_inv_def Let_def)
  qed
qed

lemma scan_step_inv:
  assumes "scan_inv rh rl cs k st"
  shows "scan_inv rh rl cs (Suc k) (scan_step rh rl cs k st)"
proof -
  obtain st1 skip where pp: "position_phase (cs ! k) st = (st1, skip)"
    by (cases "position_phase (cs ! k) st")
  have i1: "scan_inv rh rl cs k st1" using assms pp by (rule position_phase_inv)
  show ?thesis
  proof (cases skip)
    case True
    have "scan_inv rh rl cs (Suc k) st1" using i1
      by (auto simp: scan_inv_def list_all_iff intro: made_at_mono waiting_ok_mono split: option.splits)
    then show ?thesis using pp True by (simp add: scan_step_def)
  next
    case False
    then show ?thesis using pp breakout_phase_inv [OF i1] by (simp add: scan_step_def)
  qed
qed

lemma scan_fold_inv:
  "scan_inv rh rl cs 0 st \<Longrightarrow> scan_inv rh rl cs n (fold (scan_step rh rl cs) [0..<n] st)"
  by (induction n) (auto intro: scan_step_inv)

lemma scan_candles_made:
  "list_all (made_at rh rl cs (length cs)) (validBreakoutReentryPairs (scan_candles rh rl cs))"
proof -
  have "scan_inv rh rl cs 0 \<lparr>validBreakoutReentryPairs = [], firstBreakout = None, hasOpenPosition = False\<rparr>"
    by (simp add: scan_inv_def)
  then show ?thesis unfolding scan_candles_def using scan_fold_inv scan_inv_def by blast
qed

lemma fold_lowest:
  "fold (\<lambda>c m. if low c < m then low c else m) cs m0 = Min (insert m0 (low ` set cs))"
proof (induction cs arbitrary: m0)
  case Nil
  then show ?case by simp
next
  case (Cons c cs)
  have "(if low c < m0 then low c else m0) = min (low c) m0" by (simp add: min_def)
  then have "fold (\<lambda>c m. if low c < m then low c else m) (c # cs) m0 =
      Min (insert (min (low c) m0) (low ` set cs))" using Cons by simp
  also have "\<dots> = Min (insert m0 (low ` set (c # cs)))"
  proof (cases "cs = []")
    case True
    then show ?thesis by (simp add: min.commute)
  next
    case False
    then show ?thesis by (simp add: Min_insert min.assoc min.commute min.left_commute insert_commute)
  qed
  finally show ?case .
qed

lemma fold_highest:
  "fold (\<lambda>c m. if high c > m then high c else m) cs m0 = Max (insert m0 (high ` set cs))"
proof (induction cs arbitrary: m0)
  case Nil
  then show ?case by simp
next
  case (Cons c cs)
  have "(if high c > m0 then high c else m0) = max (high c) m0" by (simp add: max_def)
  then have "fold (\<lambda>c m. if high c > m then high c else m) (c # cs) m0 =
      Max (insert (max (high c) m0) (high ` set cs))" using Cons by simp
  also have "\<dots> = Max (insert m0 (high ` set (c # cs)))"
  proof (cases "cs = []")
    case True
    then show ?thesis by (simp add: max.commute)
  next
    case False
    then show ?thesis by (simp add: Max_insert max.assoc max.commute max.left_commute insert_commute)
  qed
  finally show ?case .
qed

lemma lowestPrice_of_Min: "cs \<noteq> [] \<Longrightarrow> lowestPrice_of cs = Min (low ` set cs)"
  unfolding lowestPrice_of_def fold_lowest by (simp add: insert_absorb)

lemma highestPrice_of_Max: "cs \<noteq> [] \<Longrightarrow> highestPrice_of cs = Max (high ` set cs)"
  unfolding highestPrice_of_def fold_highest by (simp add: insert_absorb)

lemma set_slice:
  assumes "b \<le> i" "i < length cs"
  shows "set (slice b (i + 1) cs) = (\<lambda>j. cs ! j) ` {b..i}"
proof -
  have "slice b (i + 1) cs = map (\<lambda>j. cs ! j) [b..<i + 1]"
  proof (rule nth_equalityI)
    show "length (slice b (i + 1) cs) = length (map (\<lambda>j. cs ! j) [b..<i + 1])"
      using assms by (simp add: slice_def)
  next
    fix n assume "n < length (slice b (i + 1) cs)"
    then have n: "b + n < i + 1" using assms by (simp add: slice_def)
    have "slice b (i + 1) cs ! n = cs ! (b + n)" using n assms by (simp add: slice_def)
    moreover have "[b..<i + 1] ! n = b + n" using n by (intro nth_upt)
    then have "map (\<lambda>j. cs ! j) [b..<i + 1] ! n = cs ! (b + n)"
      using n by (simp del: upt_Suc)
    ultimately show "slice b (i + 1) cs ! n = map (\<lambda>j. cs ! j) [b..<i + 1] ! n" by simp
  qed
  then have "set (slice b (i + 1) cs) = (\<lambda>j. cs ! j) ` set [b..<i + 1]" by (simp only: set_map)
  also have "set [b..<i + 1] = {b..i}" by auto
  finally show ?thesis .
qed

lemma slice_nonempty: "b \<le> i \<Longrightarrow> i < length cs \<Longrightarrow> slice b (i + 1) cs \<noteq> []"
  by (simp add: slice_def)

lemma newSignal_plain:
  "breakoutTime (newSignal rh rl cs i fb) = firstBreakoutTime fb \<and>
   breakoutPrice (newSignal rh rl cs i fb) = firstBreakoutPrice fb \<and>
   breakoutDirection (newSignal rh rl cs i fb) = reentryDirection_of rh rl cs i fb \<and>
   reentryTime (newSignal rh rl cs i fb) = closeTime (cs ! i) \<and>
   reentryPrice (newSignal rh rl cs i fb) = close (cs ! i) \<and>
   entryPrice (newSignal rh rl cs i fb) = close (cs ! i)"
  by (simp add: newSignal_def Let_def split: prod.splits)

lemma newSignal_long:
  assumes "reentryDirection_of rh rl cs i fb = Long"
  shows "stopLoss (newSignal rh rl cs i fb) =
           close (cs ! i) -
             min (close (cs ! i) - lowestPrice_of (slice (firstBreakoutIndex fb) (i + 1) cs))
                 (0.01 * close (cs ! i)) \<and>
         takeProfit (newSignal rh rl cs i fb) =
           close (cs ! i) +
             2 * min (close (cs ! i) - lowestPrice_of (slice (firstBreakoutIndex fb) (i + 1) cs))
                     (0.01 * close (cs ! i))"
  using assms by (simp add: newSignal_def Let_def min_def)

lemma newSignal_short:
  assumes "reentryDirection_of rh rl cs i fb = Short"
  shows "stopLoss (newSignal rh rl cs i fb) =
           close (cs ! i) +
             min (highestPrice_of (slice (firstBreakoutIndex fb) (i + 1) cs) - close (cs ! i))
                 (0.01 * close (cs ! i)) \<and>
         takeProfit (newSignal rh rl cs i fb) =
           close (cs ! i) -
             2 * min (highestPrice_of (slice (firstBreakoutIndex fb) (i + 1) cs) - close (cs ! i))
                     (0.01 * close (cs ! i))"
  using assms by (simp add: newSignal_def Let_def min_def)

lemma same_levels_resolve: "same_levels (resolvePending cs s) p = same_levels s p"
  by (simp add: resolvePending_def same_levels_def split: option.splits)

lemma same_levels_extend: "same_levels (pair.extend p ext) p"
  by (simp add: same_levels_def pair.defs)

lemma signal_origin:
  assumes "s \<in> set (detectBreakoutSignals tp days additional)"
  shows "\<exists>d \<in> set days. \<exists>fb i. i < length (candlesAfterRange d) \<and>
           waiting_ok (dayHigh d) (dayLow d) (candlesAfterRange d) i fb \<and>
           same_levels s (newSignal (dayHigh d) (dayLow d) (candlesAfterRange d) i fb)"
proof -
  have "s \<in> (\<lambda>s. if result s = Pending then resolvePending (additional (reentryTime s)) s else s) `
      set (concat (map (day_signals tp) days))"
    using assms by (simp only: detectBreakoutSignals_def set_map)
  then obtain s0 where s: "s = (if result s0 = Pending then resolvePending (additional (reentryTime s0)) s0 else s0)"
    and s0: "s0 \<in> set (concat (map (day_signals tp) days))"
    by (rule imageE)
  from s0 obtain d where d: "d \<in> set days" "s0 \<in> set (day_signals tp d)" by auto
  then obtain p where p: "p \<in> set (validBreakoutReentryPairs
        (scan_candles (dayHigh d) (dayLow d) (candlesAfterRange d)))"
    and s0p: "\<exists>ext. s0 = pair.extend p ext"
    by (auto simp: day_signals_def)
  have sp: "same_levels s0 p" using s0p same_levels_extend by auto
  have "made_at (dayHigh d) (dayLow d) (candlesAfterRange d) (length (candlesAfterRange d)) p"
    using scan_candles_made p by (auto simp: list_all_iff)
  then obtain fb i where i: "i < length (candlesAfterRange d)"
    and w: "waiting_ok (dayHigh d) (dayLow d) (candlesAfterRange d) i fb"
    and n: "p\<lparr>result := Pending\<rparr> = newSignal (dayHigh d) (dayLow d) (candlesAfterRange d) i fb"
    unfolding made_at_def by blast
  have "same_levels p (p\<lparr>result := Pending\<rparr>)" by (simp add: same_levels_def)
  then have "same_levels p (newSignal (dayHigh d) (dayLow d) (candlesAfterRange d) i fb)"
    using n by simp
  then have "same_levels s0 (newSignal (dayHigh d) (dayLow d) (candlesAfterRange d) i fb)"
    using sp by (simp add: same_levels_def)
  then have "same_levels s (newSignal (dayHigh d) (dayLow d) (candlesAfterRange d) i fb)"
    using s by (simp add: same_levels_resolve)
  then show ?thesis using d(1) i w by blast
qed

text \<open>
  Claim C2. Every signal returned stems from a breakout candle \<open>b\<close> and a later re-entry
  candle \<open>i\<close> of one day. Its entry price is the close of the re-entry candle. With
  \<open>risk\<close> the smaller of the distance from the entry price to the most adverse price
  among the candles \<open>b\<close> to \<open>i\<close> (lowest low for long, highest high for short) and 1% of
  the entry price, the stop-loss is the entry price minus (long) or plus (short) the
  risk, and the take-profit is the entry price plus (long) or minus (short) twice the risk.
\<close>

theorem signal_risk_levels:
  assumes "s \<in> set (detectBreakoutSignals tradingPair days additional)"
  shows "\<exists>d \<in> set days. \<exists>b i. b < i \<and> i < length (candlesAfterRange d) \<and>
     breakoutTime s = closeTime (candlesAfterRange d ! b) \<and>
     reentryTime s = closeTime (candlesAfterRange d ! i) \<and>
     entryPrice s = close (candlesAfterRange d ! i) \<and>
     (let risk =
        (case breakoutDirection s of
           Long \<Rightarrow> min (entryPrice s - Min ((\<lambda>j. low (candlesAfterRange d ! j)) ` {b..i}))
                       (0.01 * entryPrice s)
         | Short \<Rightarrow> min (Max ((\<lambda>j. high (candlesAfterRange d ! j)) ` {b..i}) - entryPrice s)
                        (0.01 * entryPrice s))
      in risk \<le> 0.01 * entryPrice s \<and>
         stopLoss s = (case breakoutDirection s of
                         Long \<Rightarrow> entryPrice s - risk | Short \<Rightarrow> entryPrice s + risk) \<and>
         takeProfit s = (case breakoutDirection s of
                           Long \<Rightarrow> entryPrice s + 2 * risk | Short \<Rightarrow> entryPrice s - 2 * risk))"
proof -
  from signal_origin [OF assms] obtain d fb i where d: "d \<in> set days"
    and i: "i < length (candlesAfterRange d)"
    and w: "waiting_ok (dayHigh d) (dayLow d) (candlesAfterRange d) i fb"
    and sl: "same_levels s (newSignal (dayHigh d) (dayLow d) (candlesAfterRange d) i fb)"
    by blast
  let ?cs = "candlesAfterRange d" and ?b = "firstBreakoutIndex fb"
  let ?N = "newSignal (dayHigh d) (dayLow d) ?cs i fb"
  have b: "?b < i" using w by (simp add: waiting_ok_def)
  have bt: "firstBreakoutTime fb = closeTime (?cs ! ?b)" using w by (simp add: waiting_ok_def)
  have eq: "breakoutTime s = closeTime (?cs ! ?b)" "reentryTime s = closeTime (?cs ! i)"
    "entryPrice s = close (?cs ! i)"
    "breakoutDirection s = reentryDirection_of (dayHigh d) (dayLow d) ?cs i fb"
    "stopLoss s = stopLoss ?N" "takeProfit s = takeProfit ?N"
    using sl newSignal_plain [of "dayHigh d" "dayLow d" ?cs i fb] bt
    by (simp_all add: same_levels_def)
  have ne: "slice ?b (i + 1) ?cs \<noteq> []" using b i by (intro slice_nonempty) simp_all
  have st: "set (slice ?b (i + 1) ?cs) = (\<lambda>j. ?cs ! j) ` {?b..i}"
    using b i by (intro set_slice) simp_all
  have lo: "lowestPrice_of (slice ?b (i + 1) ?cs) = Min ((\<lambda>j. low (?cs ! j)) ` {?b..i})"
    using lowestPrice_of_Min [OF ne] st by (simp add: image_image)
  have hi: "highestPrice_of (slice ?b (i + 1) ?cs) = Max ((\<lambda>j. high (?cs ! j)) ` {?b..i})"
    using highestPrice_of_Max [OF ne] st by (simp add: image_image)
  have lv: "(let risk =
        (case breakoutDirection s of
           Long \<Rightarrow> min (entryPrice s - Min ((\<lambda>j. low (?cs ! j)) ` {?b..i})) (0.01 * entryPrice s)
         | Short \<Rightarrow> min (Max ((\<lambda>j. high (?cs ! j)) ` {?b..i}) - entryPrice s) (0.01 * entryPrice s))
      in risk \<le> 0.01 * entryPrice s \<and>
         stopLoss s = (case breakoutDirection s of
                         Long \<Rightarrow> entryPrice s - risk | Short \<Rightarrow> entryPrice s + risk) \<and>
         takeProfit s = (case breakoutDirection s of
                           Long \<Rightarrow> entryPrice s + 2 * risk | Short \<Rightarrow> entryPrice s - 2 * risk))"
  proof (cases "breakoutDirection s")
    case Long
    define risk where "risk = min (entryPrice s - Min ((\<lambda>j. low (?cs ! j)) ` {?b..i})) (0.01 * entryPrice s)"
    have "reentryDirection_of (dayHigh d) (dayLow d) ?cs i fb = Long" using Long eq(4) by simp
    from newSignal_long [OF this]
    have "stopLoss s = entryPrice s - risk" "takeProfit s = entryPrice s + 2 * risk"
      unfolding risk_def eq(3,5,6) lo by simp_all
    moreover have "risk \<le> 0.01 * entryPrice s" unfolding risk_def by (rule min.cobounded2)
    ultimately show ?thesis unfolding Let_def using Long by (simp add: risk_def)
  next
    case Short
    define risk where "risk = min (Max ((\<lambda>j. high (?cs ! j)) ` {?b..i}) - entryPrice s) (0.01 * entryPrice s)"
    have "reentryDirection_of (dayHigh d) (dayLow d) ?cs i fb = Short" using Short eq(4) by simp
    from newSignal_short [OF this]
    have "stopLoss s = entryPrice s + risk" "takeProfit s = entryPrice s - 2 * risk"
      unfolding risk_def eq(3,5,6) hi by simp_all
    moreover have "risk \<le> 0.01 * entryPrice s" unfolding risk_def by (rule min.cobounded2)
    ultimately show ?thesis unfolding Let_def using Short by (simp add: risk_def)
  qed
  show ?thesis
    using d b i eq(1-3) lv by blast
qed

text \<open>
  Claim C4. The direction of every signal is decided at its re-entry candle: long if its
  low is below the range, else short if its high is above the range, else by the
  previous candle (close or low below the range: long; close or high above: short), and
  only then by the side on which the breakout price lies.
\<close>

theorem signal_direction_from_reentry:
  assumes "s \<in> set (detectBreakoutSignals tradingPair days additional)"
  shows "\<exists>d \<in> set days. \<exists>b i. b < i \<and> i < length (candlesAfterRange d) \<and>
     breakoutTime s = closeTime (candlesAfterRange d ! b) \<and>
     breakoutPrice s = close (candlesAfterRange d ! b) \<and>
     (breakoutPrice s > dayHigh d \<or> breakoutPrice s < dayLow d) \<and>
     reentryTime s = closeTime (candlesAfterRange d ! i) \<and>
     breakoutDirection s =
       (if low (candlesAfterRange d ! i) < dayLow d then Long
        else if high (candlesAfterRange d ! i) > dayHigh d then Short
        else if close (candlesAfterRange d ! (i - 1)) < dayLow d \<or>
                low (candlesAfterRange d ! (i - 1)) < dayLow d then Long
        else if close (candlesAfterRange d ! (i - 1)) > dayHigh d \<or>
                high (candlesAfterRange d ! (i - 1)) > dayHigh d then Short
        else if breakoutPrice s > dayHigh d then Short
        else Long)"
proof -
  from signal_origin [OF assms] obtain d fb i where d: "d \<in> set days"
    and i: "i < length (candlesAfterRange d)"
    and w: "waiting_ok (dayHigh d) (dayLow d) (candlesAfterRange d) i fb"
    and sl: "same_levels s (newSignal (dayHigh d) (dayLow d) (candlesAfterRange d) i fb)"
    by blast
  let ?cs = "candlesAfterRange d" and ?b = "firstBreakoutIndex fb"
  have b: "?b < i" and bt: "firstBreakoutTime fb = closeTime (?cs ! ?b)"
    and bp: "firstBreakoutPrice fb = close (?cs ! ?b)"
    and out: "firstBreakoutPrice fb > dayHigh d \<or> firstBreakoutPrice fb < dayLow d"
    using w by (auto simp: waiting_ok_def)
  have eq: "breakoutTime s = closeTime (?cs ! ?b)" "breakoutPrice s = close (?cs ! ?b)"
    "reentryTime s = closeTime (?cs ! i)"
    "breakoutDirection s = reentryDirection_of (dayHigh d) (dayLow d) ?cs i fb"
    "breakoutPrice s = firstBreakoutPrice fb"
    using sl newSignal_plain [of "dayHigh d" "dayLow d" ?cs i fb] bt bp
    by (simp_all add: same_levels_def)
  have pos: "0 < i" using b by simp
  have dir: "reentryDirection_of (dayHigh d) (dayLow d) ?cs i fb =
       (if low (?cs ! i) < dayLow d then Long
        else if high (?cs ! i) > dayHigh d then Short
        else if close (?cs ! (i - 1)) < dayLow d \<or> low (?cs ! (i - 1)) < dayLow d then Long
        else if close (?cs ! (i - 1)) > dayHigh d \<or> high (?cs ! (i - 1)) > dayHigh d then Short
        else if firstBreakoutPrice fb > dayHigh d then Short
        else Long)"
    using pos out by (auto simp: reentryDirection_of_def Let_def)
  have "breakoutPrice s > dayHigh d \<or> breakoutPrice s < dayLow d" using out eq(5) by simp
  then show ?thesis using d b i eq dir by (intro bexI [of _ d] exI [of _ ?b] exI [of _ i]) simp_all
qed

lemma checkCandles_loss:
  assumes "\<forall>x \<in> set earlier. \<not> stopLossHit d stop x \<and> \<not> takeProfitHit d target x"
    and "stopLossHit d stop c"
  shows "checkCandles d stop target (earlier @ c # later) = Loss"
  using assms by (induction earlier) simp_all

lemma reentryIndex_from_found:
  assumes "\<forall>x \<in> set before. \<not> \<bar>closeTime x - t\<bar> < 60000" and "\<bar>closeTime r - t\<bar> < 60000"
  shows "reentryIndex_from j t (before @ r # rest) = Some (j + length before)"
  using assms by (induction before arbitrary: j) simp_all

lemma resolvePending_loss:
  assumes "\<forall>x \<in> set before. \<not> \<bar>closeTime x - reentryTime s\<bar> < 60000"
    and "\<bar>closeTime r - reentryTime s\<bar> < 60000"
    and "\<forall>x \<in> set between.
           \<not> stopLossHit (breakoutDirection s) (stopLoss s) x \<and>
           \<not> takeProfitHit (breakoutDirection s) (takeProfit s) x"
    and "stopLossHit (breakoutDirection s) (stopLoss s) c"
  shows "result (resolvePending (before @ r # between @ c # after) s) = Loss"
proof -
  have "reentryIndex_from 0 (reentryTime s) (before @ r # between @ c # after) = Some (length before)"
    using reentryIndex_from_found [OF assms(1,2), of 0] by simp
  then show ?thesis
    using checkCandles_loss [OF assms(3,4)] by (simp add: resolvePending_def)
qed

text \<open>
  Claim C3. A candle that satisfies both the stop-loss and the take-profit condition of
  the open position closes it as a loss. In the scan of the day the signal of the open
  position has result loss after the step. In the look-ahead the check returns loss when
  the first candle to reach either level reaches both; so a signal that is pending after
  the scans is returned by \<^verbatim>\<open>detectBreakoutSignals\<close> with result loss when, among the
  later candles fetched for it, the first candle after the re-entry candle to reach
  either of its levels reaches both.
\<close>

theorem stop_loss_first:
  "(hasOpenPosition st \<and> validBreakoutReentryPairs st \<noteq> [] \<and>
    result (last (validBreakoutReentryPairs st)) = Pending \<and>
    ((breakoutDirection (last (validBreakoutReentryPairs st)) = Long \<and>
      low (cs ! i) \<le> stopLoss (last (validBreakoutReentryPairs st)) \<and>
      high (cs ! i) \<ge> takeProfit (last (validBreakoutReentryPairs st))) \<or>
     (breakoutDirection (last (validBreakoutReentryPairs st)) = Short \<and>
      high (cs ! i) \<ge> stopLoss (last (validBreakoutReentryPairs st)) \<and>
      low (cs ! i) \<le> takeProfit (last (validBreakoutReentryPairs st))))
    \<longrightarrow> result (validBreakoutReentryPairs (scan_step rangeHigh rangeLow cs i st) !
                  (length (validBreakoutReentryPairs st) - 1)) = Loss) \<and>
   ((\<forall>c \<in> set earlier. \<not> stopLossHit d stop c \<and> \<not> takeProfitHit d target c) \<and>
    ((d = Long \<and> low c \<le> stop \<and> high c \<ge> target) \<or>
     (d = Short \<and> high c \<ge> stop \<and> low c \<le> target))
    \<longrightarrow> checkCandles d stop target (earlier @ c # later) = Loss) \<and>
   (n < length (concat (map (day_signals tradingPair) days)) \<and>
    pendingSignal = concat (map (day_signals tradingPair) days) ! n \<and>
    result pendingSignal = Pending \<and>
    additional (reentryTime pendingSignal) = before @ reentryCandle # between @ checkCandle # after \<and>
    (\<forall>x \<in> set before. \<not> \<bar>closeTime x - reentryTime pendingSignal\<bar> < 60000) \<and>
    \<bar>closeTime reentryCandle - reentryTime pendingSignal\<bar> < 60000 \<and>
    (\<forall>x \<in> set between.
       \<not> stopLossHit (breakoutDirection pendingSignal) (stopLoss pendingSignal) x \<and>
       \<not> takeProfitHit (breakoutDirection pendingSignal) (takeProfit pendingSignal) x) \<and>
    ((breakoutDirection pendingSignal = Long \<and> low checkCandle \<le> stopLoss pendingSignal \<and>
      high checkCandle \<ge> takeProfit pendingSignal) \<or>
     (breakoutDirection pendingSignal = Short \<and> high checkCandle \<ge> stopLoss pendingSignal \<and>
      low checkCandle \<le> takeProfit pendingSignal))
    \<longrightarrow> length (detectBreakoutSignals tradingPair days additional) =
          length (concat (map (day_signals tradingPair) days)) \<and>
        detectBreakoutSignals tradingPair days additional ! n = pendingSignal\<lparr>result := Loss\<rparr>)"
proof -
  have a: "result (validBreakoutReentryPairs (scan_step rangeHigh rangeLow cs i st) !
                  (length (validBreakoutReentryPairs st) - 1)) = Loss"
    if h: "hasOpenPosition st" "validBreakoutReentryPairs st \<noteq> []"
      "result (last (validBreakoutReentryPairs st)) = Pending"
      "stopLossHit (breakoutDirection (last (validBreakoutReentryPairs st)))
         (stopLoss (last (validBreakoutReentryPairs st))) (cs ! i)"
  proof -
    let ?ps = "validBreakoutReentryPairs st"
    define st1 where "st1 = st\<lparr>validBreakoutReentryPairs := butlast ?ps @ [(last ?ps)\<lparr>result := Loss\<rparr>],
                                hasOpenPosition := False\<rparr>"
    have pp: "position_phase (cs ! i) st = (st1, False)"
      using h by (simp add: position_phase_def closePosition_def st1_def)
    have len: "length (butlast ?ps) = length ?ps - 1" by simp
    have pre: "validBreakoutReentryPairs st1 ! (length ?ps - 1) = (last ?ps)\<lparr>result := Loss\<rparr>"
      unfolding st1_def using len by (simp add: nth_append)
    have l1: "length ?ps - 1 < length (validBreakoutReentryPairs st1)"
      using h(2) by (simp add: st1_def)
    have keep: "validBreakoutReentryPairs (breakout_phase rangeHigh rangeLow cs i st1) ! (length ?ps - 1) =
        validBreakoutReentryPairs st1 ! (length ?ps - 1)"
      using l1 by (auto simp: breakout_phase_def Let_def nth_append split: option.splits)
    show ?thesis using pp keep pre by (simp add: scan_step_def)
  qed
  have b: "checkCandles d stop target (earlier @ c # later) = Loss"
    if "\<forall>c \<in> set earlier. \<not> stopLossHit d stop c \<and> \<not> takeProfitHit d target c"
      "stopLossHit d stop c"
    using that by (rule checkCandles_loss)
  have c: "length (detectBreakoutSignals tradingPair days additional) =
          length (concat (map (day_signals tradingPair) days)) \<and>
        detectBreakoutSignals tradingPair days additional ! n = pendingSignal\<lparr>result := Loss\<rparr>"
    if h: "n < length (concat (map (day_signals tradingPair) days))"
      "pendingSignal = concat (map (day_signals tradingPair) days) ! n"
      "result pendingSignal = Pending"
      "additional (reentryTime pendingSignal) = before @ reentryCandle # between @ checkCandle # after"
      "\<forall>x \<in> set before. \<not> \<bar>closeTime x - reentryTime pendingSignal\<bar> < 60000"
      "\<bar>closeTime reentryCandle - reentryTime pendingSignal\<bar> < 60000"
      "\<forall>x \<in> set between.
         \<not> stopLossHit (breakoutDirection pendingSignal) (stopLoss pendingSignal) x \<and>
         \<not> takeProfitHit (breakoutDirection pendingSignal) (takeProfit pendingSignal) x"
      "stopLossHit (breakoutDirection pendingSignal) (stopLoss pendingSignal) checkCandle"
  proof -
    have nth: "detectBreakoutSignals tradingPair days additional ! n =
        resolvePending (additional (reentryTime pendingSignal)) pendingSignal"
      using h(1,3) unfolding h(2) detectBreakoutSignals_def by simp
    have res: "result (resolvePending (additional (reentryTime pendingSignal)) pendingSignal) = Loss"
      unfolding h(4) using h(5-8) by (rule resolvePending_loss)
    have shape: "resolvePending (additional (reentryTime pendingSignal)) pendingSignal =
        pendingSignal\<lparr>result := result (resolvePending (additional (reentryTime pendingSignal)) pendingSignal)\<rparr>"
      by (simp add: resolvePending_def split: option.splits)
    have "resolvePending (additional (reentryTime pendingSignal)) pendingSignal =
        pendingSignal\<lparr>result := Loss\<rparr>"
      using shape unfolding res .
    then show ?thesis using nth by (simp add: detectBreakoutSignals_def)
  qed
  show ?thesis
  proof (intro conjI impI)
    assume "hasOpenPosition st \<and> validBreakoutReentryPairs st \<noteq> [] \<and>
      result (last (validBreakoutReentryPairs st)) = Pending \<and>
      ((breakoutDirection (last (validBreakoutReentryPairs st)) = Long \<and>
        low (cs ! i) \<le> stopLoss (last (validBreakoutReentryPairs st)) \<and>
        high (cs ! i) \<ge> takeProfit (last (validBreakoutReentryPairs st))) \<or>
       (breakoutDirection (last (validBreakoutReentryPairs st)) = Short \<and>
        high (cs ! i) \<ge> stopLoss (last (validBreakoutReentryPairs st)) \<and>
        low (cs ! i) \<le> takeProfit (last (validBreakoutReentryPairs st))))"
    then show "result (validBreakoutReentryPairs (scan_step rangeHigh rangeLow cs i st) !
                  (length (validBreakoutReentryPairs st) - 1)) = Loss"
      by (intro a) (auto simp: stopLossHit_def)
  next
    assume "(\<forall>c \<in> set earlier. \<not> stopLossHit d stop c \<and> \<not> takeProfitHit d target c) \<and>
      ((d = Long \<and> low c \<le> stop \<and> high c \<ge> target) \<or>
       (d = Short \<and> high c \<ge> stop \<and> low c \<le> target))"
    then show "checkCandles d stop target (earlier @ c # later) = Loss"
      by (intro b) (auto simp: stopLossHit_def)
  next
    assume h: "n < length (concat (map (day_signals tradingPair) days)) \<and>
      pendingSignal = concat (map (day_signals tradingPair) days) ! n \<and>
      result pendingSignal = Pending \<and>
      additional (reentryTime pendingSignal) = before @ reentryCandle # between @ checkCandle # after \<and>
      (\<forall>x \<in> set before. \<not> \<bar>closeTime x - reentryTime pendingSignal\<bar> < 60000) \<and>
      \<bar>closeTime reentryCandle - reentryTime pendingSignal\<bar> < 60000 \<and>
      (\<forall>x \<in> set between.
         \<not> stopLossHit (breakoutDirection pendingSignal) (stopLoss pendingSignal) x \<and>
         \<not> takeProfitHit (breakoutDirection pendingSignal) (takeProfit pendingSignal) x) \<and>
      ((breakoutDirection pendingSignal = Long \<and> low checkCandle \<le> stopLoss pendingSignal \<and>
        high checkCandle \<ge> takeProfit pendingSignal) \<or>
       (breakoutDirection pendingSignal = Short \<and> high checkCandle \<ge> stopLoss pendingSignal \<and>
        low checkCandle \<le> takeProfit pendingSignal))"
    then have sl: "stopLossHit (breakoutDirection pendingSignal) (stopLoss pendingSignal) checkCandle"
      by (auto simp: stopLossHit_def)
    have r: "length (detectBreakoutSignals tradingPair days additional) =
          length (concat (map (day_signals tradingPair) days)) \<and>
        detectBreakoutSignals tradingPair days additional ! n = pendingSignal\<lparr>result := Loss\<rparr>"
      by (rule c) (use h sl in blast)+
    show "length (detectBreakoutSignals tradingPair days additional) =
          length (concat (map (day_signals tradingPair) days))" using r by simp
    show "detectBreakoutSignals tradingPair days additional ! n = pendingSignal\<lparr>result := Loss\<rparr>"
      using r by simp
  qed
qed

lemmas breakout_eval =
  detectBreakoutSignals_def day_signals_def scan_candles_def scan_step_def position_phase_def
  breakout_phase_def closePosition_def stopLossHit_def takeProfitHit_def newSignal_def
  reentryDirection_of_def lowestPrice_of_def highestPrice_of_def slice_def Let_def upt_rec
  example_day_def example_candles_def no_more_candles_def resolvePending_def pair.defs signal.defs

lemma example_run:
  "detectBreakoutSignals ''BTC/USDT'' [example_day] no_more_candles = [example_signal]"
  by (simp add: breakout_eval example_signal_def)

lemma example_open_reached:
  "fold (scan_step 100 95 example_candles) [0..<2]
     \<lparr>validBreakoutReentryPairs = [], firstBreakout = None, hasOpenPosition = False\<rparr> = example_open"
  by (simp add: breakout_eval example_open_def)

theorem signal_risk_levels_witness:
  "detectBreakoutSignals ''BTC/USDT'' [example_day] no_more_candles = [example_signal] \<and>
   stopLoss example_signal = 98.98 \<and> takeProfit example_signal = 96.04 \<and>
   (\<exists>d \<in> set [example_day]. \<exists>b i. b < i \<and> i < length (candlesAfterRange d) \<and>
     breakoutTime example_signal = closeTime (candlesAfterRange d ! b) \<and>
     reentryTime example_signal = closeTime (candlesAfterRange d ! i) \<and>
     entryPrice example_signal = close (candlesAfterRange d ! i) \<and>
     (let risk =
        (case breakoutDirection example_signal of
           Long \<Rightarrow> min (entryPrice example_signal - Min ((\<lambda>j. low (candlesAfterRange d ! j)) ` {b..i}))
                       (0.01 * entryPrice example_signal)
         | Short \<Rightarrow> min (Max ((\<lambda>j. high (candlesAfterRange d ! j)) ` {b..i}) - entryPrice example_signal)
                        (0.01 * entryPrice example_signal))
      in risk \<le> 0.01 * entryPrice example_signal \<and>
         stopLoss example_signal =
           (case breakoutDirection example_signal of
              Long \<Rightarrow> entryPrice example_signal - risk | Short \<Rightarrow> entryPrice example_signal + risk) \<and>
         takeProfit example_signal =
           (case breakoutDirection example_signal of
              Long \<Rightarrow> entryPrice example_signal + 2 * risk
            | Short \<Rightarrow> entryPrice example_signal - 2 * risk)))"
proof -
  have m: "example_signal \<in> set (detectBreakoutSignals ''BTC/USDT'' [example_day] no_more_candles)"
    by (simp add: example_run)
  have v: "stopLoss example_signal = 98.98 \<and> takeProfit example_signal = 96.04"
    by (simp add: example_signal_def)
  show ?thesis using signal_risk_levels [OF m] example_run v by blast
qed

theorem signal_direction_from_reentry_witness:
  "detectBreakoutSignals ''BTC/USDT'' [example_day] no_more_candles = [example_signal] \<and>
   breakoutDirection example_signal = Short \<and>
   (\<exists>d \<in> set [example_day]. \<exists>b i. b < i \<and> i < length (candlesAfterRange d) \<and>
     breakoutTime example_signal = closeTime (candlesAfterRange d ! b) \<and>
     breakoutPrice example_signal = close (candlesAfterRange d ! b) \<and>
     (breakoutPrice example_signal > dayHigh d \<or> breakoutPrice example_signal < dayLow d) \<and>
     reentryTime example_signal = closeTime (candlesAfterRange d ! i) \<and>
     breakoutDirection example_signal =
       (if low (candlesAfterRange d ! i) < dayLow d then Long
        else if high (candlesAfterRange d ! i) > dayHigh d then Short
        else if close (candlesAfterRange d ! (i - 1)) < dayLow d \<or>
                low (candlesAfterRange d ! (i - 1)) < dayLow d then Long
        else if close (candlesAfterRange d ! (i - 1)) > dayHigh d \<or>
                high (candlesAfterRange d ! (i - 1)) > dayHigh d then Short
        else if breakoutPrice example_signal > dayHigh d then Short
        else Long))"
proof -
  have m: "example_signal \<in> set (detectBreakoutSignals ''BTC/USDT'' [example_day] no_more_candles)"
    by (simp add: example_run)
  have v: "breakoutDirection example_signal = Short" by (simp add: example_signal_def)
  show ?thesis using signal_direction_from_reentry [OF m] example_run v by blast
qed

lemma example_pending_run:
  "day_signals ''BTC/USDT'' example_pending_day = [example_signal\<lparr>result := Pending\<rparr>]"
  by (simp add: breakout_eval example_signal_def example_pending_day_def)

theorem stop_loss_first_witness:
  "fold (scan_step 100 95 example_candles) [0..<2]
     \<lparr>validBreakoutReentryPairs = [], firstBreakout = None, hasOpenPosition = False\<rparr> = example_open \<and>
   hasOpenPosition example_open \<and> validBreakoutReentryPairs example_open \<noteq> [] \<and>
   result (last (validBreakoutReentryPairs example_open)) = Pending \<and>
   breakoutDirection (last (validBreakoutReentryPairs example_open)) = Short \<and>
   high (example_candles ! 2) \<ge> stopLoss (last (validBreakoutReentryPairs example_open)) \<and>
   low (example_candles ! 2) \<le> takeProfit (last (validBreakoutReentryPairs example_open)) \<and>
   result (validBreakoutReentryPairs (scan_step 100 95 example_candles 2 example_open) !
             (length (validBreakoutReentryPairs example_open) - 1)) = Loss \<and>
   high (example_candles ! 2) \<ge> (98.98 :: real) \<and> low (example_candles ! 2) \<le> (96.04 :: real) \<and>
   checkCandles Short 98.98 96.04 ([] @ example_candles ! 2 # []) = Loss \<and>
   concat (map (day_signals ''BTC/USDT'') [example_pending_day]) ! 0 =
     example_signal\<lparr>result := Pending\<rparr> \<and>
   example_later 600000 = [] @ example_candles ! 1 # [] @ example_candles ! 2 # [] \<and>
   \<bar>closeTime (example_candles ! 1) - reentryTime example_signal\<bar> < 60000 \<and>
   detectBreakoutSignals ''BTC/USDT'' [example_pending_day] example_later ! 0 = example_signal"
proof -
  have h: "hasOpenPosition example_open \<and> validBreakoutReentryPairs example_open \<noteq> [] \<and>
      result (last (validBreakoutReentryPairs example_open)) = Pending \<and>
      breakoutDirection (last (validBreakoutReentryPairs example_open)) = Short \<and>
      high (example_candles ! 2) \<ge> stopLoss (last (validBreakoutReentryPairs example_open)) \<and>
      low (example_candles ! 2) \<le> takeProfit (last (validBreakoutReentryPairs example_open))"
    by (simp add: example_open_def example_candles_def)
  have k: "high (example_candles ! 2) \<ge> (98.98 :: real) \<and> low (example_candles ! 2) \<le> (96.04 :: real)"
    by (simp add: example_candles_def)
  have e: "\<forall>c \<in> set ([] :: candle list). \<not> stopLossHit Short 98.98 c \<and> \<not> takeProfitHit Short 96.04 c"
    by simp
  have a: "result (validBreakoutReentryPairs (scan_step 100 95 example_candles 2 example_open) !
             (length (validBreakoutReentryPairs example_open) - 1)) = Loss"
    using stop_loss_first [where st = example_open and cs = example_candles and i = 2
        and rangeHigh = 100 and rangeLow = 95] h by blast
  have b: "checkCandles Short 98.98 96.04 ([] @ example_candles ! 2 # []) = Loss"
    using stop_loss_first [where earlier = "[]" and d = Short and stop = "98.98" and target = "96.04"
        and c = "example_candles ! 2" and later = "[]"] k e by blast
  let ?p = "example_signal\<lparr>result := Pending\<rparr>"
  have p0: "concat (map (day_signals ''BTC/USDT'') [example_pending_day]) ! 0 = ?p"
    by (simp add: example_pending_run)
  have p1: "0 < length (concat (map (day_signals ''BTC/USDT'') [example_pending_day]))"
    by (simp add: example_pending_run)
  have p2: "result ?p = Pending" by simp
  have p3: "example_later (reentryTime ?p) = [] @ example_candles ! 1 # [] @ example_candles ! 2 # []"
    by (simp add: example_later_def example_candles_def)
  have p4: "\<forall>x \<in> set ([] :: candle list). \<not> \<bar>closeTime x - reentryTime ?p\<bar> < 60000" by simp
  have p5: "\<bar>closeTime (example_candles ! 1) - reentryTime ?p\<bar> < 60000"
    by (simp add: example_candles_def example_signal_def)
  have p6: "\<forall>x \<in> set ([] :: candle list).
      \<not> stopLossHit (breakoutDirection ?p) (stopLoss ?p) x \<and>
      \<not> takeProfitHit (breakoutDirection ?p) (takeProfit ?p) x" by simp
  have p7: "breakoutDirection ?p = Short \<and> high (example_candles ! 2) \<ge> stopLoss ?p \<and>
      low (example_candles ! 2) \<le> takeProfit ?p"
    by (simp add: example_candles_def example_signal_def)
  have l: "?p\<lparr>result := Loss\<rparr> = example_signal" by (simp add: example_signal_def)
  have "detectBreakoutSignals ''BTC/USDT'' [example_pending_day] example_later ! 0 = ?p\<lparr>result := Loss\<rparr>"
    using stop_loss_first [where n = 0 and tradingPair = "''BTC/USDT''" and days = "[example_pending_day]"
        and pendingSignal = ?p and additional = example_later and before = "[]"
        and reentryCandle = "example_candles ! 1" and between = "[]"
        and checkCandle = "example_candles ! 2" and after = "[]"]
      p0 [symmetric] p1 p2 p3 p4 p5 p6 p7 by blast
  then have c: "detectBreakoutSignals ''BTC/USDT'' [example_pending_day] example_later ! 0 = example_signal"
    unfolding l .
  have p3': "example_later 600000 = [] @ example_candles ! 1 # [] @ example_candles ! 2 # []"
    by (simp add: example_later_def example_candles_def)
  have p5': "\<bar>closeTime (example_candles ! 1) - reentryTime example_signal\<bar> < 60000"
    by (simp add: example_candles_def example_signal_def)
  show ?thesis using example_open_reached h k a b p0 p3' p5' c by blast
qed

end
